theory Spec2Isabelle
  imports Complex_Main
begin

section \<open>Python values and numeric primitives\<close>

text \<open>
  The controller and the generator compute with Python \<open>int\<close> and \<open>float\<close>. Integers are
  \<open>int\<close>. A float is modelled as an exact rational or one of the three special values;
  rounding error of the binary representation is not modelled, so a product that is an
  exact tie in the rationals is a tie here. A value handed to \<open>move\<close> may also be \<open>None\<close>
  (a missing key of a response dictionary).
\<close>

datatype pyfloat = Fin rat | NaN | PosInf | NegInf

datatype pyval = PyNum pyfloat | PyNone

datatype error = TypeError | ValueError | OverflowError | UnboundLocalError | LLMError

text \<open>\<open>float(v)\<close>: a number converts, \<open>None\<close> raises \<open>TypeError\<close>.\<close>

fun py_float :: "pyval \<Rightarrow> error + pyfloat" where
  "py_float (PyNum f) = Inr f"
| "py_float PyNone = Inl TypeError"

text \<open>\<open>int(x)\<close> of a finite float truncates toward zero.\<close>

definition trunc :: "rat \<Rightarrow> int" where
  "trunc q = (if 0 \<le> q then \<lfloor>q\<rfloor> else \<lceil>q\<rceil>)"

fun py_int :: "pyfloat \<Rightarrow> error + int" where
  "py_int (Fin q) = Inr (trunc q)"
| "py_int NaN = Inl ValueError"
| "py_int PosInf = Inl OverflowError"
| "py_int NegInf = Inl OverflowError"

text \<open>\<open>round(x)\<close> of a finite float: to the nearest integer, ties to the even one.\<close>

definition py_round :: "rat \<Rightarrow> int" where
  "py_round x =
     (let f = \<lfloor>x\<rfloor>; r = x - of_int f
      in if r < 1 / 2 then f
         else if 1 / 2 < r then f + 1
         else if even f then f else f + 1)"

section \<open>The device controller (\<open>handy_controller.py\<close>)\<close>

record HandyController =
  handy_key :: string
  last_relative_speed :: int
  last_depth_pos :: int
  last_stroke_speed :: int
  min_user_speed :: int
  max_user_speed :: int
  min_handy_depth :: int
  max_handy_depth :: int
  MIN_SPAN_POINTS :: int
  PREFERRED_SPAN_POINTS :: int
  manual_mode_active :: bool

text \<open>
  The transport: every \<open>requests.put\<close> either answers or raises \<open>RequestException\<close>.
  \<open>pending\<close> lists what the coming calls will do (an exhausted list answers), \<open>puts\<close>
  records every request issued, in order, as path and JSON body, and \<open>errlog\<close> the lines
  written to standard error.
\<close>

datatype put_outcome = Responded | RequestException

type_synonym body = "(string \<times> int) list"

record transport =
  pending :: "put_outcome list"
  puts :: "(string \<times> body) list"
  errlog :: "string list"

text \<open>\<open>HandyController.__init__\<close>, the two span defaults read from the environment.\<close>

definition init :: "string \<Rightarrow> int \<Rightarrow> int \<Rightarrow> HandyController" where
  "init key env_min_span env_pref_span =
     \<lparr> handy_key = key, last_relative_speed = 50, last_depth_pos = 50,
       last_stroke_speed = 0, min_user_speed = 10, max_user_speed = 80,
       min_handy_depth = 0, max_handy_depth = 100,
       MIN_SPAN_POINTS = env_min_span, PREFERRED_SPAN_POINTS = env_pref_span,
       manual_mode_active = False \<rparr>"

definition set_span_policy :: "int option \<Rightarrow> int option \<Rightarrow> HandyController \<Rightarrow> HandyController" where
  "set_span_policy min_span_points preferred_span_points c =
     (let c1 = (case min_span_points of None \<Rightarrow> c
                | Some m \<Rightarrow> c\<lparr>MIN_SPAN_POINTS := max 0 (min 100 m)\<rparr>)
      in case preferred_span_points of None \<Rightarrow> c1
         | Some p \<Rightarrow> c1\<lparr>PREFERRED_SPAN_POINTS := max 0 (min 100 p)\<rparr>)"

text \<open>\<open>_send_command\<close>: nothing without a key; a \<open>RequestException\<close> is caught and logged.\<close>

definition send_command :: "HandyController \<Rightarrow> string \<Rightarrow> body \<Rightarrow> transport \<Rightarrow> transport" where
  "send_command c path bdy t =
     (if handy_key c = [] then t
      else case pending t of
             [] \<Rightarrow> t\<lparr>puts := puts t @ [(path, bdy)]\<rparr>
           | Responded # os \<Rightarrow> t\<lparr>pending := os, puts := puts t @ [(path, bdy)]\<rparr>
           | RequestException # os \<Rightarrow>
               t\<lparr>pending := os, puts := puts t @ [(path, bdy)],
                 errlog := errlog t @ [''[HANDY ERROR] PUT '' @ path @ '' failed'']\<rparr>)"

text \<open>\<open>_pct\<close>: a value that \<open>float\<close> rejects is 0.0; \<open>max(0.0, min(100.0, v))\<close> keeps its
  first argument unless the second compares smaller (larger), so NaN gives 100.0.\<close>

definition pct :: "pyval \<Rightarrow> rat" where
  "pct v =
     (case py_float v of
        Inl e \<Rightarrow> 0
      | Inr (Fin q) \<Rightarrow> max 0 (min 100 q)
      | Inr NaN \<Rightarrow> 100
      | Inr PosInf \<Rightarrow> 100
      | Inr NegInf \<Rightarrow> 0)"

definition stop :: "HandyController \<times> transport \<Rightarrow> HandyController \<times> transport" where
  "stop s =
     (case s of (c, t) \<Rightarrow>
        if handy_key c = [] then (c, t)
        else (c\<lparr>last_stroke_speed := 0, last_relative_speed := 0, manual_mode_active := False\<rparr>,
              send_command c ''hamp/stop'' [] t))"

definition ensure_manual_mode :: "HandyController \<times> transport \<Rightarrow> HandyController \<times> transport" where
  "ensure_manual_mode s =
     (case s of (c, t) \<Rightarrow>
        if manual_mode_active c then (c, t)
        else (c\<lparr>manual_mode_active := True\<rparr>,
              send_command c ''hamp/start'' [] (send_command c ''mode'' [(''mode'', 0)] t)))"

text \<open>The slide window of \<open>_apply_move_parameters\<close> before the boundary correction:
  the span and the two rounded ends.\<close>

definition slide_window_raw :: "HandyController \<Rightarrow> rat \<Rightarrow> rat \<Rightarrow> int \<times> int \<times> int" where
  "slide_window_raw c dp_rel rng_rel =
     (let calib_w0 = (of_int (max_handy_depth c - min_handy_depth c) :: rat);
          calib_w = (if calib_w0 \<le> 0 then 100 else calib_w0);
          center_abs = of_int (min_handy_depth c) + calib_w * (dp_rel / 100);
          requested_span_abs = py_round ((rng_rel / 100) * calib_w);
          min_span = MIN_SPAN_POINTS c;
          pref_span = PREFERRED_SPAN_POINTS c;
          span1 = (if 0 < pref_span then max requested_span_abs pref_span else requested_span_abs);
          span2 = (if 0 < min_span then max span1 min_span else span1);
          span_abs = min span2 (trunc calib_w);
          half = (of_int span_abs :: rat) / 2
      in (span_abs, py_round (center_abs - half), py_round (center_abs + half)))"

text \<open>The boundary correction and the final swap.\<close>

definition boundary_correct :: "int \<Rightarrow> int \<times> int \<Rightarrow> int \<times> int" where
  "boundary_correct span_abs w =
     (case w of (slide_min0, slide_max0) \<Rightarrow>
        let (slide_min1, slide_max1) =
              (if slide_min0 < 0 then (0, min 100 (0 + span_abs)) else (slide_min0, slide_max0));
            (slide_min2, slide_max2) =
              (if 100 < slide_max1 then (max 0 (100 - span_abs), 100) else (slide_min1, slide_max1))
        in if slide_max2 < slide_min2 then (slide_max2, slide_min2) else (slide_min2, slide_max2))"

definition final_velocity :: "HandyController \<Rightarrow> rat \<Rightarrow> int" where
  "final_velocity c sp_rel =
     (let speed_w0 = (of_int (max_user_speed c - min_user_speed c) :: rat);
          speed_w = (if speed_w0 < 0 then 0 else speed_w0)
      in py_round (of_int (min_user_speed c) + speed_w * (sp_rel / 100)))"

definition apply_move_parameters ::
  "rat \<Rightarrow> rat \<Rightarrow> rat \<Rightarrow> HandyController \<times> transport \<Rightarrow> HandyController \<times> transport" where
  "apply_move_parameters sp_rel dp_rel rng_rel s =
     (case s of (c, t) \<Rightarrow>
        let (span_abs, slide_min0, slide_max0) = slide_window_raw c dp_rel rng_rel;
            (slide_min, slide_max) = boundary_correct span_abs (slide_min0, slide_max0);
            t1 = send_command c ''slide'' [(''min'', slide_min), (''max'', slide_max)] t;
            final_vel = final_velocity c sp_rel;
            t2 = send_command c ''hamp/velocity'' [(''velocity'', final_vel)] t1
        in (c\<lparr>last_relative_speed := py_round sp_rel, last_depth_pos := py_round dp_rel,
              last_stroke_speed := final_vel\<rparr>, t2))"

text \<open>\<open>move\<close>: \<open>int(float(speed))\<close> may raise, before anything is sent or stored.\<close>

definition move ::
  "pyval \<Rightarrow> pyval \<Rightarrow> pyval \<Rightarrow> HandyController \<times> transport \<Rightarrow> error + HandyController \<times> transport" where
  "move speed depth stroke_range s =
     (if handy_key (fst s) = [] then Inr s
      else case py_float speed of
             Inl e \<Rightarrow> Inl e
           | Inr f \<Rightarrow>
              (case py_int f of
                 Inl e \<Rightarrow> Inl e
               | Inr n \<Rightarrow>
                  if n = 0 then Inr (stop s)
                  else let sp_rel = pct speed; dp_rel = pct depth; rng_rel = pct stroke_range
                       in Inr (apply_move_parameters sp_rel dp_rel rng_rel (ensure_manual_mode s))))"

text \<open>The requests a call issued: what it appended to the transport's record.\<close>

definition emitted :: "transport \<Rightarrow> transport \<Rightarrow> (string \<times> body) list" where
  "emitted t t' = drop (length (puts t)) (puts t')"

text \<open>A speed that \<open>move\<close> accepts and does not treat as a stop: \<open>int(float(speed))\<close> is
  defined and not zero.\<close>

definition is_nonstop :: "pyval \<Rightarrow> bool" where
  "is_nonstop v = (case py_float v of Inl e \<Rightarrow> False
                   | Inr f \<Rightarrow> (case py_int f of Inl e \<Rightarrow> False | Inr n \<Rightarrow> n \<noteq> 0))"

text \<open>The two requests that put the device in manual mode.\<close>

definition is_manual_cmd :: "string \<times> body \<Rightarrow> bool" where
  "is_manual_cmd p = (fst p = ''mode'' \<or> fst p = ''hamp/start'')"

definition manual_pair :: "(string \<times> body) list" where
  "manual_pair = [(''mode'', [(''mode'', 0)]), (''hamp/start'', [])]"

text \<open>The slide and velocity requests of \<open>_apply_move_parameters\<close>, as a list.\<close>

definition move_commands :: "HandyController \<Rightarrow> pyval \<Rightarrow> pyval \<Rightarrow> pyval \<Rightarrow> (string \<times> body) list" where
  "move_commands c speed depth stroke_range =
     (case slide_window_raw c (pct depth) (pct stroke_range) of (span_abs, w) \<Rightarrow>
        case boundary_correct span_abs w of (slide_min, slide_max) \<Rightarrow>
          [(''slide'', [(''min'', slide_min), (''max'', slide_max)]),
           (''hamp/velocity'', [(''velocity'', final_velocity c (pct speed))])])"

definition set_api_key :: "string \<Rightarrow> HandyController \<Rightarrow> HandyController" where
  "set_api_key key c = c\<lparr>handy_key := key\<rparr>"

text \<open>A transport on which nothing has been sent yet.\<close>

definition fresh_transport :: "put_outcome list \<Rightarrow> transport" where
  "fresh_transport os = \<lparr>pending = os, puts = [], errlog = []\<rparr>"

section \<open>The move generator (\<open>script_generator.py\<close>)\<close>

text \<open>
  The random source is a list of draws: the numbers still to be drawn, in order. \<open>randint(a, b)\<close>
  takes the next one, brought into \<open>[a, b]\<close>; \<open>random()\<close> takes the next one as hundredths in
  \<open>[0, 1)\<close>. An exhausted list keeps giving the low end.
\<close>

fun randint :: "int \<Rightarrow> int \<Rightarrow> int list \<Rightarrow> int \<times> int list" where
  "randint a b [] = (a, [])"
| "randint a b (r # rs) = (max a (min b r), rs)"

fun random_unit :: "int list \<Rightarrow> rat \<times> int list" where
  "random_unit [] = (0, [])"
| "random_unit (r # rs) = (of_int (max 0 (min 99 r)) / 100, rs)"

record Move =
  m_sp :: int
  m_dp :: int
  m_rng :: int
  m_duration :: int

record Cues =
  fast :: bool
  slow :: bool
  tip_only :: bool
  base_only :: bool
  full :: bool
  coming :: bool

record Envelope =
  env_sp :: "int \<times> int"
  env_dp :: "int \<times> int"
  env_rng :: "int \<times> int"
  env_dur :: "int \<times> int"

text \<open>The module globals \<open>_LAST_MOVE\<close> and \<open>_LAST_PHASE\<close>.\<close>

record GeneratorState =
  LAST_MOVE :: "Move option"
  LAST_PHASE :: "string option"

definition clamp :: "int \<Rightarrow> int \<Rightarrow> int \<Rightarrow> int" where
  "clamp v lo hi = max lo (min hi v)"

definition compute_sp_adjusted :: "int \<Rightarrow> int \<Rightarrow> int \<Rightarrow> int" where
  "compute_sp_adjusted base_sp dp rng =
     (let d_factor = (1 + (3 / 10) * (of_int \<bar>dp - 50\<bar> / 50) :: rat);
          sp = py_round (of_int base_sp * d_factor)
      in clamp sp 1 100)"

text \<open>\<open>str.upper\<close> on the ASCII letters.\<close>

definition upper_char :: "char \<Rightarrow> char" where
  "upper_char c = (let n = (of_char c :: nat) in if 97 \<le> n \<and> n \<le> 122 then char_of (n - 32) else c)"

definition upper :: "string \<Rightarrow> string" where
  "upper s = map upper_char s"

definition WARM_UP :: Envelope where
  "WARM_UP = \<lparr>env_sp = (15, 35), env_dp = (40, 60), env_rng = (25, 45), env_dur = (3000, 3500)\<rparr>"

definition ACTIVE :: Envelope where
  "ACTIVE = \<lparr>env_sp = (45, 85), env_dp = (50, 80), env_rng = (50, 80), env_dur = (2500, 3000)\<rparr>"

definition RECOVERY :: Envelope where
  "RECOVERY = \<lparr>env_sp = (5, 15), env_dp = (35, 55), env_rng = (20, 40), env_dur = (3500, 4500)\<rparr>"

definition ENVELOPES :: "string \<Rightarrow> Envelope option" where
  "ENVELOPES name =
     (if name = ''WARM-UP'' then Some WARM_UP
      else if name = ''ACTIVE'' then Some ACTIVE
      else if name = ''RECOVERY'' then Some RECOVERY
      else None)"

text \<open>\<open>ENVELOPES.get(phase_upper, ENVELOPES["WARM-UP"])\<close>.\<close>

definition envelope_of :: "string \<Rightarrow> Envelope" where
  "envelope_of phase_upper = (case ENVELOPES phase_upper of Some e \<Rightarrow> e | None \<Rightarrow> WARM_UP)"

text \<open>The body of the loop of \<open>generate_moves\<close>, in the order of the source.
  First the four base draws.\<close>

definition draw_base :: "Envelope \<Rightarrow> int list \<Rightarrow> (int \<times> int \<times> int \<times> int) \<times> int list" where
  "draw_base env rnd =
     (let (base_sp, r1) = randint (fst (env_sp env)) (snd (env_sp env)) rnd;
          (dp, r2) = randint (fst (env_dp env)) (snd (env_dp env)) r1;
          (rng, r3) = randint (fst (env_rng env)) (snd (env_rng env)) r2;
          (duration, r4) = randint (fst (env_dur env)) (snd (env_dur env)) r3
      in ((base_sp, dp, rng, duration), r4))"

text \<open>The speed cues.\<close>

definition speed_cues :: "Cues \<Rightarrow> int \<Rightarrow> int \<Rightarrow> int \<Rightarrow> int" where
  "speed_cues cues sp_min sp_max base_sp =
     (let base_sp1 = (if fast cues \<and> \<not> slow cues
                      then clamp (base_sp + 8) sp_min (min 100 (sp_max + 12)) else base_sp)
      in if slow cues \<and> \<not> fast cues
         then clamp (base_sp1 - 8) (max 1 (sp_min - 5)) sp_max else base_sp1)"

text \<open>The zone cues: depth, range and the two override flags.\<close>

definition zone_cues :: "Cues \<Rightarrow> int \<Rightarrow> int \<Rightarrow> int list \<Rightarrow> (int \<times> int \<times> bool \<times> bool) \<times> int list" where
  "zone_cues cues dp rng rnd =
     (if tip_only cues \<and> base_only cues then ((dp, rng, False, False), rnd)
      else if tip_only cues \<and> full cues then
        (let (dp', r1) = randint 85 95 rnd; (rng', r2) = randint 40 70 r1
         in ((dp', rng', True, True), r2))
      else if base_only cues \<and> full cues then
        (let (dp', r1) = randint 5 15 rnd; (rng', r2) = randint 40 70 r1
         in ((dp', rng', True, True), r2))
      else if full cues then
        (let (dp', r1) = randint 45 55 rnd; (rng', r2) = randint 60 100 r1
         in ((dp', rng', True, True), r2))
      else if tip_only cues then
        (let (dp', r1) = randint 85 95 rnd; (rng', r2) = randint 10 20 r1
         in ((dp', rng', True, True), r2))
      else if base_only cues then
        (let (dp', r1) = randint 5 15 rnd; (rng', r2) = randint 10 20 r1
         in ((dp', rng', True, True), r2))
      else ((dp, rng, False, False), rnd))"

text \<open>The coming cue: a new duration, and a full stroke or a widened range.\<close>

definition coming_cue ::
  "Cues \<Rightarrow> int \<times> int \<times> bool \<times> bool \<Rightarrow> int \<Rightarrow> int list \<Rightarrow> ((int \<times> int \<times> bool \<times> bool) \<times> int) \<times> int list" where
  "coming_cue cues z duration rnd =
     (case z of (dp, rng, dp_override, rng_override) \<Rightarrow>
        if coming cues then
          (let (duration', r1) = randint 3500 7000 rnd
           in if \<not> (dp_override \<or> rng_override) then
                (let (dp', r2) = randint 45 55 r1; (rng', r3) = randint 70 100 r2
                 in (((dp', rng', True, True), duration'), r3))
              else (((dp, clamp rng 40 90, dp_override, True), duration'), r1))
        else (((dp, rng, dp_override, rng_override), duration), rnd))"

text \<open>The speed scaled by the range against the middle of the envelope's range, then by
  the depth.\<close>

definition scale_speed :: "int \<Rightarrow> int \<Rightarrow> int \<Rightarrow> int \<Rightarrow> int" where
  "scale_speed rng_min rng_max base_sp rng =
     (let rng_ref = (of_int (rng_min + rng_max) / 2 :: rat);
          scaled_sp = (if 0 < rng_ref then of_int base_sp * (of_int rng / rng_ref) else of_int base_sp)
      in py_round scaled_sp)"

text \<open>The smoothing against \<open>_LAST_MOVE\<close>.\<close>

definition smooth :: "Move option \<Rightarrow> int \<times> int \<times> int \<Rightarrow> int \<times> int \<times> int" where
  "smooth last_move v =
     (case v of (sp, dp, rng) \<Rightarrow>
        case last_move of
          None \<Rightarrow> (sp, dp, rng)
        | Some prev \<Rightarrow>
            (clamp (m_sp prev + clamp (sp - m_sp prev) (- 6) 6) 1 100,
             clamp (m_dp prev + clamp (dp - m_dp prev) (- 10) 10) 0 100,
             clamp (m_rng prev + clamp (rng - m_rng prev) (- 10) 10) 0 100))"

text \<open>The envelope after the smoothing, and the cap of the recovery phase.\<close>

definition enforce_envelope :: "Envelope \<Rightarrow> string \<Rightarrow> bool \<Rightarrow> bool \<Rightarrow> int \<times> int \<times> int \<Rightarrow> int \<times> int \<times> int" where
  "enforce_envelope env phase_upper dp_override rng_override v =
     (case v of (sp, dp, rng) \<Rightarrow>
        let sp1 = clamp sp (fst (env_sp env)) (snd (env_sp env));
            dp1 = (if \<not> dp_override then clamp dp (fst (env_dp env)) (snd (env_dp env))
                   else clamp dp 0 100);
            rng1 = (if \<not> rng_override then clamp rng (fst (env_rng env)) (snd (env_rng env))
                    else clamp rng 0 100);
            sp2 = (if phase_upper = ''RECOVERY'' then min sp1 15 else sp1)
        in (sp2, dp1, rng1))"

text \<open>The cadence hold: \<open>moves[-1]\<close> is read only when \<open>moves\<close> is not empty.\<close>

definition cadence_hold :: "Envelope \<Rightarrow> Move list \<Rightarrow> int \<Rightarrow> int list \<Rightarrow> int \<times> int list" where
  "cadence_hold env moves sp rnd =
     (if moves \<noteq> [] then
        (let (u, r1) = random_unit rnd
         in if u < 60 / 100 then
              (let prev_sp_val = m_sp (last moves); (jitter, r2) = randint (- 5) 5 r1
               in (clamp (prev_sp_val + jitter) (fst (env_sp env)) (snd (env_sp env)), r2))
            else (sp, r1))
      else (sp, rnd))"

definition generate_move ::
  "Envelope \<Rightarrow> string \<Rightarrow> Cues \<Rightarrow> Move list \<Rightarrow> Move option \<Rightarrow> int list \<Rightarrow> Move \<times> int list" where
  "generate_move env phase_upper cues moves last_move rnd =
     (let ((base_sp0, dp0, rng0, duration0), r1) = draw_base env rnd;
          base_sp = speed_cues cues (fst (env_sp env)) (snd (env_sp env)) base_sp0;
          ((dp1, rng1, dp_override1, rng_override1), r2) = zone_cues cues dp0 rng0 r1;
          (((dp2, rng2, dp_override, rng_override), duration), r3) =
             coming_cue cues (dp1, rng1, dp_override1, rng_override1) duration0 r2;
          base_sp_scaled = scale_speed (fst (env_rng env)) (snd (env_rng env)) base_sp rng2;
          sp = compute_sp_adjusted base_sp_scaled dp2 rng2;
          (sp3, dp3, rng3) = enforce_envelope env phase_upper dp_override rng_override
                               (smooth last_move (sp, dp2, rng2));
          (sp4, r4) = cadence_hold env moves sp3 r3
      in (\<lparr>m_sp = sp4, m_dp = dp3, m_rng = rng3, m_duration = duration\<rparr>, r4))"

text \<open>The loop: \<open>n\<close> more moves, each appended to \<open>moves\<close> and stored as \<open>_LAST_MOVE\<close>.\<close>

fun generate_loop ::
  "Envelope \<Rightarrow> string \<Rightarrow> Cues \<Rightarrow> nat \<Rightarrow> Move list \<Rightarrow> Move option \<Rightarrow> int list
     \<Rightarrow> Move list \<times> Move option \<times> int list" where
  "generate_loop env phase_upper cues 0 moves last_move rnd = (moves, last_move, rnd)"
| "generate_loop env phase_upper cues (Suc n) moves last_move rnd =
     (case generate_move env phase_upper cues moves last_move rnd of
        (mv, rnd') \<Rightarrow> generate_loop env phase_upper cues n (moves @ [mv]) (Some mv) rnd')"

definition generate_moves ::
  "string \<Rightarrow> Cues \<Rightarrow> GeneratorState \<Rightarrow> int list \<Rightarrow> Move list \<times> GeneratorState \<times> int list" where
  "generate_moves phase cues st rnd =
     (let phase_upper = upper phase;
          st1 = (if LAST_PHASE st \<noteq> Some phase_upper
                 then \<lparr>LAST_MOVE = None, LAST_PHASE = Some phase_upper\<rparr> else st);
          env = envelope_of phase_upper
      in case generate_loop env phase_upper cues 10 [] (LAST_MOVE st1) rnd of
           (moves, last_move, rnd') \<Rightarrow> (moves, st1\<lparr>LAST_MOVE := last_move\<rparr>, rnd'))"

definition no_cues :: Cues where
  "no_cues = \<lparr>fast = False, slow = False, tip_only = False, base_only = False, full = False, coming = False\<rparr>"

definition initial_state :: GeneratorState where
  "initial_state = \<lparr>LAST_MOVE = None, LAST_PHASE = None\<rparr>"

text \<open>
  Predicates for the statements below. An envelope is valid when its intervals are ordered
  and lie inside the absolute ranges; the three envelopes of the source are.
\<close>

definition valid_env :: "Envelope \<Rightarrow> bool" where
  "valid_env e =
     (1 \<le> fst (env_sp e) \<and> fst (env_sp e) \<le> snd (env_sp e) \<and> snd (env_sp e) \<le> 100
    \<and> 0 \<le> fst (env_dp e) \<and> fst (env_dp e) \<le> snd (env_dp e) \<and> snd (env_dp e) \<le> 100
    \<and> 0 \<le> fst (env_rng e) \<and> fst (env_rng e) \<le> snd (env_rng e) \<and> snd (env_rng e) \<le> 100
    \<and> fst (env_dur e) \<le> snd (env_dur e))"

text \<open>
  The two override flags of the loop body depend on the cues only, and are equal: a zone
  cue that is not cancelled, or the coming cue, sets both.
\<close>

definition overridden :: "Cues \<Rightarrow> bool" where
  "overridden cues =
     ((\<not> (tip_only cues \<and> base_only cues) \<and> (tip_only cues \<or> base_only cues \<or> full cues))
      \<or> coming cues)"

text \<open>
  What the final clamps of the loop body enforce on a move: speed inside the envelope,
  depth and range inside the envelope, or inside 0..100 when overridden, and the duration
  inside the envelope or, with the coming cue, inside 3500..7000.
\<close>

definition within_bounds :: "Envelope \<Rightarrow> Cues \<Rightarrow> Move \<Rightarrow> bool" where
  "within_bounds env cues m =
     (fst (env_sp env) \<le> m_sp m \<and> m_sp m \<le> snd (env_sp env)
    \<and> (if overridden cues then 0 \<le> m_dp m \<and> m_dp m \<le> 100
        else fst (env_dp env) \<le> m_dp m \<and> m_dp m \<le> snd (env_dp env))
    \<and> (if overridden cues then 0 \<le> m_rng m \<and> m_rng m \<le> 100
        else fst (env_rng env) \<le> m_rng m \<and> m_rng m \<le> snd (env_rng env))
    \<and> (if coming cues then 3500 \<le> m_duration m \<and> m_duration m \<le> 7000
        else fst (env_dur env) \<le> m_duration m \<and> m_duration m \<le> snd (env_dur env)))"

text \<open>
  The smoothing bound between a move and the one before it.
\<close>

definition smooth_step :: "Move \<Rightarrow> Move \<Rightarrow> bool" where
  "smooth_step p m =
     (\<bar>m_sp m - m_sp p\<bar> \<le> 6 \<and> \<bar>m_dp m - m_dp p\<bar> \<le> 10 \<and> \<bar>m_rng m - m_rng p\<bar> \<le> 10)"

text \<open>
  The depth and range intervals the specification announces for each combination of cues
  (its steps 3 and 4): the tables of the zone cues, 40..90 for the range when the coming cue
  meets a zone cue, the full stroke 45..55 and 70..100 when it meets none, and the envelope
  otherwise. \<open>within_announced\<close> is the claim that a move lies inside them.
\<close>

definition announced_zone :: "Envelope \<Rightarrow> Cues \<Rightarrow> (int \<times> int) \<times> (int \<times> int)" where
  "announced_zone env cues =
     (if tip_only cues \<and> base_only cues then
        (if coming cues then ((45, 55), (70, 100)) else (env_dp env, env_rng env))
      else if tip_only cues \<and> full cues then ((85, 95), if coming cues then (40, 90) else (40, 70))
      else if base_only cues \<and> full cues then ((5, 15), if coming cues then (40, 90) else (40, 70))
      else if full cues then ((45, 55), if coming cues then (40, 90) else (60, 100))
      else if tip_only cues then ((85, 95), if coming cues then (40, 90) else (10, 20))
      else if base_only cues then ((5, 15), if coming cues then (40, 90) else (10, 20))
      else if coming cues then ((45, 55), (70, 100))
      else (env_dp env, env_rng env))"

definition in_zone :: "Envelope \<Rightarrow> Cues \<Rightarrow> int \<Rightarrow> int \<Rightarrow> bool" where
  "in_zone env cues dp rng =
     (fst (fst (announced_zone env cues)) \<le> dp \<and> dp \<le> snd (fst (announced_zone env cues))
    \<and> fst (snd (announced_zone env cues)) \<le> rng \<and> rng \<le> snd (snd (announced_zone env cues)))"

definition within_announced :: "Envelope \<Rightarrow> Cues \<Rightarrow> Move \<Rightarrow> bool" where
  "within_announced env cues m =
     (fst (env_sp env) \<le> m_sp m \<and> m_sp m \<le> snd (env_sp env)
    \<and> in_zone env cues (m_dp m) (m_rng m)
    \<and> (if coming cues then 3500 \<le> m_duration m \<and> m_duration m \<le> 7000
        else fst (env_dur env) \<le> m_duration m \<and> m_duration m \<le> snd (env_dur env)))"

text \<open>
  Inputs of the examples: the tip cue alone, and the move a warm-up call without cues
  produces when all its draws are at the upper end.
\<close>

definition tip_cue :: Cues where
  "tip_cue = no_cues\<lparr>tip_only := True\<rparr>"

definition warm_high :: Move where
  "warm_high = \<lparr>m_sp = 35, m_dp = 60, m_rng = 45, m_duration = 3000\<rparr>"

text \<open>The move a warm-up call with the tip cue produces when its draws are exhausted.\<close>

definition tip_low :: Move where
  "tip_low = \<lparr>m_sp = 15, m_dp = 85, m_rng = 10, m_duration = 3000\<rparr>"

section \<open>The mode loops (\<open>background_modes.py\<close>)\<close>

text \<open>
  The world a mode runs in: the controller with its transport, a clock in milliseconds,
  the list of random draws, the messages sent to the user interface, the moods set, the
  number of calls of the \<open>on_stop\<close> callback, and the times the coming calls of
  \<open>handy.move\<close> will block in their requests. The clock is advanced by \<open>time.sleep\<close>, by
  what it is asked, and by a call of \<open>handy.move\<close> that issues requests, by what the
  environment decides. The cancellation signal is given by the time at which it is set
  (\<open>None\<close>: never); it stays set.
\<close>

record world =
  device :: "HandyController \<times> transport"
  now :: nat
  draws :: "int list"
  messages :: "string list"
  mood_log :: "string list"
  on_stop_calls :: nat
  io_times :: "nat list"

definition is_set :: "nat option \<Rightarrow> nat \<Rightarrow> bool" where
  "is_set stop_at t = (case stop_at of None \<Rightarrow> False | Some s \<Rightarrow> s \<le> t)"

definition sleep :: "nat \<Rightarrow> world \<Rightarrow> world" where
  "sleep d w = w\<lparr>now := now w + d\<rparr>"

definition send_message :: "string \<Rightarrow> world \<Rightarrow> world" where
  "send_message text w = w\<lparr>messages := messages w @ [text]\<rparr>"

definition update_mood :: "string \<Rightarrow> world \<Rightarrow> world" where
  "update_mood mood w = w\<lparr>mood_log := mood_log w @ [mood]\<rparr>"

text \<open>\<open>random.randint(a, b)\<close> and \<open>random.uniform(a, b)\<close> (in milliseconds) on the draws of the
  world.\<close>

definition draw_int :: "int \<Rightarrow> int \<Rightarrow> world \<Rightarrow> int \<times> world" where
  "draw_int a b w = (case randint a b (draws w) of (v, r) \<Rightarrow> (v, w\<lparr>draws := r\<rparr>))"

definition uniform_ms :: "nat \<Rightarrow> nat \<Rightarrow> world \<Rightarrow> nat \<times> world" where
  "uniform_ms a b w = (case randint (int a) (int b) (draws w) of (v, r) \<Rightarrow> (nat v, w\<lparr>draws := r\<rparr>))"

text \<open>
  A call of \<open>handy.move\<close> from a loop. When it issues requests it blocks in
  \<open>requests.put\<close> (each with its timeout of 10 s) and the signal is not read meanwhile: the
  clock advances by the next entry of \<open>io_times\<close> (an exhausted list: no time). A call
  that raises or issues nothing takes no time.
\<close>

definition block_io :: "world \<Rightarrow> world" where
  "block_io w = (case io_times w of [] \<Rightarrow> w | d # ds \<Rightarrow> w\<lparr>now := now w + d, io_times := ds\<rparr>)"

definition timed_move :: "pyval \<Rightarrow> pyval \<Rightarrow> pyval \<Rightarrow> world \<Rightarrow> error + world" where
  "timed_move sp dp rng w =
     (case move sp dp rng (device w) of
        Inl e \<Rightarrow> Inl e
      | Inr d \<Rightarrow>
          Inr ((if emitted (snd (device w)) (snd d) = [] then w else block_io w)\<lparr>device := d\<rparr>))"

text \<open>\<open>try: handy.move(...) except Exception: pass\<close>.\<close>

definition try_move :: "pyval \<Rightarrow> pyval \<Rightarrow> pyval \<Rightarrow> world \<Rightarrow> world" where
  "try_move sp dp rng w = (case timed_move sp dp rng w of Inl e \<Rightarrow> w | Inr w1 \<Rightarrow> w1)"

definition py_of_int :: "int \<Rightarrow> pyval" where
  "py_of_int n = PyNum (Fin (of_int n))"

subsection \<open>The custom patterns\<close>

text \<open>The interruptible sleep of \<open>_step_move\<close>: 50 ms slices until the signal is set or the
  time is up; the result is the time at which the loop ends.\<close>

function interruptible_wait :: "nat option \<Rightarrow> nat \<Rightarrow> nat \<Rightarrow> nat" where
  "interruptible_wait stop_at t_end t =
     (if \<not> is_set stop_at t \<and> t < t_end then interruptible_wait stop_at t_end (t + 50) else t)"
  by pat_completeness auto
termination
  by (relation "measure (\<lambda>(stop_at, t_end, t). t_end - t)") auto

declare interruptible_wait.simps [simp del]

definition step_move :: "nat option \<Rightarrow> int \<Rightarrow> int \<Rightarrow> int \<Rightarrow> nat \<Rightarrow> world \<Rightarrow> world" where
  "step_move stop_at sp dp rng dur w =
     (let w1 = try_move (py_of_int sp) (py_of_int dp) (py_of_int rng) w;
          t_end = now w1 + dur
      in w1\<lparr>now := interruptible_wait stop_at t_end (now w1)\<rparr>)"

text \<open>The wait of \<open>post_orgasm_mode_logic\<close>: up to \<open>n\<close> slices of 100 ms.\<close>

fun sliced_wait :: "nat option \<Rightarrow> nat \<Rightarrow> nat \<Rightarrow> nat" where
  "sliced_wait stop_at 0 t = t"
| "sliced_wait stop_at (Suc n) t =
     (if is_set stop_at t then t else sliced_wait stop_at n (t + 100))"

text \<open>The character U+2026 of the messages, in UTF-8, and the letter U+00EC.\<close>

definition ellipsis :: string where
  "ellipsis = [CHR 0xE2, CHR 0x80, CHR 0xA6]"

definition i_grave :: string where
  "i_grave = [CHR 0xC3, CHR 0xAC]"

text \<open>\<open>waves_mode_logic\<close>: one pass over the centres, left at the first step that ends with
  the signal set, and the loop around it, which may run forever.\<close>

definition centers :: "int list" where
  "centers = [20, 35, 50, 65, 80, 65, 50, 35]"

fun waves_pass :: "nat option \<Rightarrow> int list \<Rightarrow> world \<Rightarrow> world" where
  "waves_pass stop_at [] w = w"
| "waves_pass stop_at (dp # dps) w =
     (let sp = 35 + (dp mod 20);
          w1 = step_move stop_at sp dp 50 800 w
      in if is_set stop_at (now w1) then w1 else waves_pass stop_at dps w1)"

partial_function (option) waves_loop :: "nat option \<Rightarrow> world \<Rightarrow> world option" where
  "waves_loop stop_at w =
     (if is_set stop_at (now w) then Some w else waves_loop stop_at (waves_pass stop_at centers w))"

definition waves_mode_logic :: "nat option \<Rightarrow> world \<Rightarrow> world option" where
  "waves_mode_logic stop_at w =
     waves_loop stop_at
       (update_mood ''Playful'' (send_message (''Ok, vado a onde morbide'' @ ellipsis) w))"

text \<open>\<open>pulse_mode_logic\<close>, of the same shape.\<close>

definition ranges :: "int list" where
  "ranges = [20, 40, 60, 40]"

fun pulse_pass :: "nat option \<Rightarrow> int list \<Rightarrow> world \<Rightarrow> world" where
  "pulse_pass stop_at [] w = w"
| "pulse_pass stop_at (rng # rngs) w =
     (let w1 = step_move stop_at 55 55 rng 500 w
      in if is_set stop_at (now w1) then w1 else pulse_pass stop_at rngs w1)"

partial_function (option) pulse_loop :: "nat option \<Rightarrow> world \<Rightarrow> world option" where
  "pulse_loop stop_at w =
     (if is_set stop_at (now w) then Some w else pulse_loop stop_at (pulse_pass stop_at ranges w))"

definition pulse_mode_logic :: "nat option \<Rightarrow> world \<Rightarrow> world option" where
  "pulse_mode_logic stop_at w =
     pulse_loop stop_at
       (update_mood ''Focused'' (send_message (''Arrivano gli impulsi'' @ ellipsis) w))"

text \<open>\<open>stairs_mode_logic\<close>: the pass runs over \<open>enumerate(seq)\<close>; the speed grows with the index
  on the way up.\<close>

definition up :: "int list" where
  "up = [30, 45, 60, 75, 90]"

definition down :: "int list" where
  "down = [75, 60, 45]"

definition seq :: "int list" where
  "seq = up @ down"

fun stairs_pass :: "nat option \<Rightarrow> (nat \<times> int) list \<Rightarrow> world \<Rightarrow> world" where
  "stairs_pass stop_at [] w = w"
| "stairs_pass stop_at ((i, dp) # rest) w =
     (let sp = (if i < length up then 30 + int i * 3 else 35);
          w1 = step_move stop_at sp dp 40 1200 w
      in if is_set stop_at (now w1) then w1 else stairs_pass stop_at rest w1)"

partial_function (option) stairs_loop :: "nat option \<Rightarrow> world \<Rightarrow> world option" where
  "stairs_loop stop_at w =
     (if is_set stop_at (now w) then Some w
      else stairs_loop stop_at (stairs_pass stop_at (enumerate 0 seq) w))"

definition stairs_mode_logic :: "nat option \<Rightarrow> world \<Rightarrow> world option" where
  "stairs_mode_logic stop_at w =
     stairs_loop stop_at
       (update_mood ''Teasing''
          (send_message (''Salgo a gradini'' @ ellipsis @ '' e poi riscendo.'') w))"

text \<open>\<open>teasehold_mode_logic\<close>: the way up and the way down are loops over a range that
  read the signal before each step; between them the hold repeats one step until six
  seconds have passed.\<close>

fun tease_steps :: "nat option \<Rightarrow> int \<Rightarrow> int \<Rightarrow> nat \<Rightarrow> int list \<Rightarrow> world \<Rightarrow> world" where
  "tease_steps stop_at sp rng dur [] w = w"
| "tease_steps stop_at sp rng dur (dp # dps) w =
     (if is_set stop_at (now w) then w
      else tease_steps stop_at sp rng dur dps (step_move stop_at sp dp rng dur w))"

partial_function (option) hold_loop :: "nat option \<Rightarrow> nat \<Rightarrow> world \<Rightarrow> world option" where
  "hold_loop stop_at t_end w =
     (if \<not> is_set stop_at (now w) \<and> now w < t_end
      then hold_loop stop_at t_end (step_move stop_at 20 88 15 600 w)
      else Some w)"

definition teasehold_mode_logic :: "nat option \<Rightarrow> world \<Rightarrow> world option" where
  "teasehold_mode_logic stop_at w =
     (let w0 = update_mood ''Seductive''
                 (send_message (''Ti porto su piano'' @ ellipsis @ '' e ti tengo l'' @ i_grave @ ''.'') w);
          w1 = tease_steps stop_at 25 20 600 [40, 45, 50, 55, 60, 65, 70, 75, 80, 85] w0
      in case hold_loop stop_at (now w1 + 6000) w1 of
           None \<Rightarrow> None
         | Some w2 \<Rightarrow> Some (tease_steps stop_at 22 25 500 [85, 80, 75, 70, 65, 60, 55, 50] w2))"

text \<open>\<open>post_orgasm_mode_logic\<close>.\<close>

partial_function (option) post_orgasm_loop :: "nat option \<Rightarrow> world \<Rightarrow> world option" where
  "post_orgasm_loop stop_at w =
     (if is_set stop_at (now w) then Some w
      else case draw_int 1 5 w of (r, w1) \<Rightarrow>
        let sp = max 1 (min 5 r);
            w2 = try_move (py_of_int sp) (py_of_int 100) (py_of_int 100) w1
        in post_orgasm_loop stop_at (w2\<lparr>now := sliced_wait stop_at 50 (now w2)\<rparr>))"

definition post_orgasm_mode_logic :: "nat option \<Rightarrow> world \<Rightarrow> world option" where
  "post_orgasm_mode_logic stop_at w =
     post_orgasm_loop stop_at
       (send_message ''Post-Orgasm: massaggio lento e costante. Rilassati.'' w)"

subsection \<open>The replay of a move list\<close>

text \<open>A move of a response: the values under the keys \<open>sp\<close>, \<open>dp\<close> and \<open>rng\<close>, each possibly
  missing, and whether the dictionary has other keys.\<close>

record move_dict =
  d_sp :: "pyval option"
  d_dp :: "pyval option"
  d_rng :: "pyval option"
  d_other :: bool

definition get_or :: "pyval option \<Rightarrow> pyval \<Rightarrow> pyval" where
  "get_or v dflt = (case v of None \<Rightarrow> dflt | Some x \<Rightarrow> x)"

text \<open>One pass of \<open>loop_moves_randomly\<close>: a move that raises skips its sleep.\<close>

fun replay_pass :: "nat option \<Rightarrow> move_dict list \<Rightarrow> world \<Rightarrow> world" where
  "replay_pass stop_at [] w = w"
| "replay_pass stop_at (m # ms) w =
     (if is_set stop_at (now w) then w
      else case timed_move (get_or (d_sp m) (py_of_int 10)) (get_or (d_dp m) (py_of_int 50))
                           (get_or (d_rng m) (py_of_int 30)) w of
             Inl e \<Rightarrow> replay_pass stop_at ms w
           | Inr w0 \<Rightarrow>
               (case uniform_ms 500 1200 w0 of
                  (t, w1) \<Rightarrow> replay_pass stop_at ms (sleep t w1)))"

partial_function (option) replay_loop :: "nat option \<Rightarrow> move_dict list \<Rightarrow> world \<Rightarrow> world option" where
  "replay_loop stop_at moves w =
     (if is_set stop_at (now w) then Some w
      else case uniform_ms 1500 3500 (replay_pass stop_at moves w) of
             (t, w1) \<Rightarrow> replay_loop stop_at moves (sleep t w1))"

definition loop_moves_randomly :: "move_dict list \<Rightarrow> nat option \<Rightarrow> world \<Rightarrow> world option" where
  "loop_moves_randomly moves stop_at w = (if moves = [] then Some w else replay_loop stop_at moves w)"

subsection \<open>The thread of a mode\<close>

text \<open>\<open>AutoModeThread.run\<close>. The mode function returns the world it leaves and the exception
  it raised, if any, or does not return. The \<open>finally\<close> block stops the device, calls
  \<open>on_stop\<close> and sends the closing message. The call of \<open>handy.stop\<close> blocks in its
  request as a move does.\<close>

definition timed_stop :: "world \<Rightarrow> world" where
  "timed_stop w =
     (let d = stop (device w)
      in (if emitted (snd (device w)) (snd d) = [] then w else block_io w)\<lparr>device := d\<rparr>)"

definition run ::
  "(world \<Rightarrow> (world \<times> error option) option) \<Rightarrow> string \<Rightarrow> world \<Rightarrow> world option" where
  "run mode_func initial_message w =
     (let w1 = sleep 2000 (send_message initial_message w)
      in case mode_func w1 of
           None \<Rightarrow> None
         | Some (w2, exn) \<Rightarrow>
             (let w3 = timed_stop w2;
                  w4 = w3\<lparr>on_stop_calls := on_stop_calls w3 + 1\<rparr>
              in Some (send_message ''Okay, you're in control now.'' w4)))"

subsection \<open>What the language model answers\<close>

text \<open>
  A response is a dictionary; the model keeps the chat text (when it is a string), the
  \<open>move\<close> dictionary and the \<open>moves\<close> list (when they have these types). \<open>None\<close> for the
  response stands for \<open>None\<close> and for the empty dictionary, both false in a condition. A call
  of the service answers or raises. Each tick of a loop gets what the environment provides
  to it: the timing bounds in milliseconds, the message popped from the queue, the outcome
  of the call, and whether the user edge signal was set since the tick before.
\<close>

record response =
  r_chat :: "string option"
  r_move :: "move_dict option"
  r_moves :: "move_dict list option"

datatype llm_outcome = LLM_raises | LLM_returns "response option"

record tick_input =
  t_timings :: "nat \<times> nat"
  t_user_message :: "string option"
  t_llm :: llm_outcome
  t_signal :: bool

definition is_space :: "char \<Rightarrow> bool" where
  "is_space c = (c \<in> set [CHR '' '', CHR 0x09, CHR 0x0A, CHR 0x0B, CHR 0x0C, CHR 0x0D])"

definition strip :: "string \<Rightarrow> string" where
  "strip s = rev (dropWhile is_space (rev (dropWhile is_space s)))"

text \<open>A dictionary is true in a condition when it has a key.\<close>

definition truthy :: "move_dict \<Rightarrow> bool" where
  "truthy md = (d_sp md \<noteq> None \<or> d_dp md \<noteq> None \<or> d_rng md \<noteq> None \<or> d_other md)"

subsection \<open>Auto mode\<close>

text \<open>
  The body of the loop of \<open>auto_mode_logic\<close>. A failing call of the service is no response.
  In the branch for a \<open>moves\<close> list the function reads \<open>loop_thread\<close>, which it assigns
  further down and does not declare global: the name is local and still unbound, and the
  read raises \<open>UnboundLocalError\<close>. In the branch for a single \<open>move\<close> a missing key raises
  \<open>KeyError\<close> inside the \<open>try\<close>, as an exception of \<open>handy.move\<close> does.
\<close>

definition auto_tick :: "tick_input \<Rightarrow> world \<Rightarrow> world \<times> error option" where
  "auto_tick inp w =
     (let resp = (case t_llm inp of LLM_raises \<Rightarrow> None | LLM_returns r \<Rightarrow> r);
          w1 = (case resp of
                  None \<Rightarrow> w
                | Some r \<Rightarrow> (case r_chat r of
                               None \<Rightarrow> w
                             | Some c \<Rightarrow> if strip c \<noteq> [] then send_message (strip c) w else w))
      in if (case resp of None \<Rightarrow> False | Some r \<Rightarrow> r_moves r \<noteq> None)
         then (w1, Some UnboundLocalError)
         else
           let w2 = (case resp of
                       None \<Rightarrow> w1
                     | Some r \<Rightarrow>
                        (case r_move r of
                           None \<Rightarrow> w1
                         | Some md \<Rightarrow>
                            (case (d_sp md, d_dp md, d_rng md) of
                               (Some s, Some d, Some g) \<Rightarrow> try_move s d g w1
                             | _ \<Rightarrow> w1)));
               (sp, w3) = draw_int 20 80 w2;
               (dp, w4) = draw_int 30 70 w3;
               (rng, w5) = draw_int 20 50 w4;
               w6 = try_move (py_of_int sp) (py_of_int dp) (py_of_int rng) w5;
               (t, w7) = uniform_ms (fst (t_timings inp)) (snd (t_timings inp)) w6
           in (sleep t w7, None))"

text \<open>The loop: the signal is read at the head of each tick only. When the ticks provided
  run out before the signal is set the loop has not returned.\<close>

fun auto_mode_logic ::
  "nat option \<Rightarrow> tick_input list \<Rightarrow> world \<Rightarrow> (world \<times> error option) option" where
  "auto_mode_logic stop_at [] w = (if is_set stop_at (now w) then Some (w, None) else None)"
| "auto_mode_logic stop_at (inp # inps) w =
     (if is_set stop_at (now w) then Some (w, None)
      else case auto_tick inp w of
             (w1, Some e) \<Rightarrow> Some (w1, Some e)
           | (w1, None) \<Rightarrow> auto_mode_logic stop_at inps w1)"

subsection \<open>Milking mode\<close>

text \<open>
  The body of the loop of \<open>milking_mode_logic\<close>, which runs after the signal has been read
  at the head of a stroke: the call of the service, the chat text, a random move and the
  sleep, in one call.
\<close>

definition milking_tick :: "tick_input \<Rightarrow> world \<Rightarrow> world" where
  "milking_tick inp w =
     (let resp = (case t_llm inp of LLM_raises \<Rightarrow> None | LLM_returns r \<Rightarrow> r);
          w1 = (case resp of
                  None \<Rightarrow> w
                | Some r \<Rightarrow> (case r_chat r of
                               None \<Rightarrow> w
                             | Some c \<Rightarrow> if strip c \<noteq> [] then send_message (strip c) w else w));
          (sp, w2) = draw_int 40 90 w1;
          (dp, w3) = draw_int 50 85 w2;
          (rng, w4) = draw_int 30 60 w3;
          w5 = try_move (py_of_int sp) (py_of_int dp) (py_of_int rng) w4;
          (t, w6) = uniform_ms (fst (t_timings inp)) (snd (t_timings inp)) w5
      in sleep t w6)"

subsection \<open>Edging mode\<close>

text \<open>The prompt sent to the service, by its kind: the edge prompt with the count, or the
  prompt of a phase with the pending user message.\<close>

datatype prompt = EdgePrompt int | PhasePrompt string "string option"

record edging_state =
  ew :: world
  edge_count :: int
  current_state :: string
  user_signal_event :: bool
  prompts :: "(prompt \<times> int) list"

definition states :: "string list" where
  "states = [''BUILD_UP'', ''TEASE'', ''HOLD'', ''RECOVERY'']"

definition moods :: "(string \<times> string) list" where
  "moods = [(''BUILD_UP'', ''Seductive''), (''TEASE'', ''Playful''), (''HOLD'', ''Confident''),
            (''RECOVERY'', ''Loving'')]"

text \<open>The first half of a tick: the reaction to the user signal, or the prompt of the
  current state, which falls back to the build-up when it has no entry in \<open>moods\<close>.\<close>

definition edging_react :: "string option \<Rightarrow> edging_state \<Rightarrow> edging_state \<times> prompt" where
  "edging_react user_message s =
     (if user_signal_event s then
        (s\<lparr>user_signal_event := False, edge_count := edge_count s + 1,
           ew := update_mood ''Dominant'' (ew s), current_state := ''PULL_BACK''\<rparr>,
         EdgePrompt (edge_count s + 1))
      else
        (let cs = (if map_of moods (current_state s) = None then ''BUILD_UP'' else current_state s)
         in (s\<lparr>current_state := cs, ew := update_mood (the (map_of moods cs)) (ew s)\<rparr>,
             PhasePrompt cs user_message)))"

text \<open>The second half: the call of the service, which is not guarded here, the move, the
  next state and the sleep. The sleep of a tick without a move is one second.\<close>

definition edging_tick :: "tick_input \<Rightarrow> edging_state \<Rightarrow> edging_state \<times> error option" where
  "edging_tick inp s0 =
     (let (s1, p) = edging_react (t_user_message inp) s0;
          s2 = s1\<lparr>prompts := prompts s1 @ [(p, edge_count s1)]\<rparr>
      in case t_llm inp of
           LLM_raises \<Rightarrow> (s2, Some LLMError)
         | LLM_returns resp \<Rightarrow>
            (case (case resp of None \<Rightarrow> None
                   | Some r \<Rightarrow> (case r_move r of None \<Rightarrow> None
                                | Some md \<Rightarrow> if truthy md then Some (r, md) else None)) of
               None \<Rightarrow> (s2\<lparr>ew := sleep 1000 (ew s2)\<rparr>, None)
             | Some (r, md) \<Rightarrow>
                (let s3 = (case r_chat r of
                             None \<Rightarrow> s2
                           | Some c \<Rightarrow> if c \<noteq> [] then s2\<lparr>ew := send_message c (ew s2)\<rparr> else s2)
                 in case timed_move (get_or (d_sp md) PyNone) (get_or (d_dp md) PyNone)
                                    (get_or (d_rng md) PyNone) (ew s3) of
                      Inl e \<Rightarrow> (s3, Some e)
                    | Inr w0 \<Rightarrow>
                       (let s4 = s3\<lparr>ew := w0\<rparr>;
                            s5 = (if current_state s4 \<noteq> ''PULL_BACK''
                                  then (case draw_int 0 3 (ew s4) of
                                          (i, w) \<Rightarrow> s4\<lparr>ew := w, current_state := states ! nat i\<rparr>)
                                  else s4\<lparr>current_state := ''RECOVERY''\<rparr>);
                            (t, w) = uniform_ms (fst (t_timings inp)) (snd (t_timings inp)) (ew s5)
                        in (s5\<lparr>ew := sleep t w\<rparr>, None)))))"

text \<open>The loop, the user signal set by the environment between the ticks, and the closing
  lines, which run when the loop ends with the signal not set.\<close>

fun edging_loop ::
  "nat option \<Rightarrow> tick_input list \<Rightarrow> edging_state \<Rightarrow> (edging_state \<times> error option) option" where
  "edging_loop stop_at [] s = (if is_set stop_at (now (ew s)) then Some (s, None) else None)"
| "edging_loop stop_at (inp # inps) s =
     (if is_set stop_at (now (ew s)) then Some (s, None)
      else case edging_tick inp (s\<lparr>user_signal_event := user_signal_event s \<or> t_signal inp\<rparr>) of
             (s1, Some e) \<Rightarrow> Some (s1, Some e)
           | (s1, None) \<Rightarrow> edging_loop stop_at inps s1)"

text \<open>\<open>str\<close> of an integer, for the closing message.\<close>

fun digits :: "nat \<Rightarrow> string" where
  "digits n = (if n < 10 then [char_of (48 + n)] else digits (n div 10) @ [char_of (48 + n mod 10)])"

declare digits.simps [simp del]

definition str_int :: "int \<Rightarrow> string" where
  "str_int i = (if i < 0 then CHR ''-'' # digits (nat (- i)) else digits (nat i))"

definition edging_start :: "world \<Rightarrow> edging_state" where
  "edging_start w =
     \<lparr>ew = w, edge_count = 0, current_state = ''BUILD_UP'', user_signal_event = False, prompts = []\<rparr>"

definition edging_mode_logic ::
  "nat option \<Rightarrow> tick_input list \<Rightarrow> world \<Rightarrow> (edging_state \<times> error option) option" where
  "edging_mode_logic stop_at inps w =
     (case edging_loop stop_at inps (edging_start w) of
        None \<Rightarrow> None
      | Some (s, Some e) \<Rightarrow> Some (s, Some e)
      | Some (s, None) \<Rightarrow>
          if \<not> is_set stop_at (now (ew s))
          then Some (s\<lparr>ew := update_mood ''Afterglow''
                              (send_message (''You did so well, holding it in for ''
                                 @ str_int (edge_count s) @ '' edges...'') (ew s))\<rparr>, None)
          else Some (s, None))"

text \<open>
  Inputs of the examples: a world with a key set and nothing sent, a replay list of one
  move, and ticks of the loops.
\<close>

definition world0 :: world where
  "world0 = \<lparr>device = (init ''key'' 0 0, fresh_transport []), now = 0, draws = [],
             messages = [], mood_log = [], on_stop_calls = 0, io_times = []\<rparr>"

definition one_move :: move_dict where
  "one_move = \<lparr>d_sp = Some (py_of_int 40), d_dp = Some (py_of_int 50), d_rng = Some (py_of_int 30),
               d_other = False\<rparr>"

text \<open>
  Predicates for the statements below: no stop request has been sent; a speed that
  \<open>move\<close> takes for 0 (\<open>int(float(speed)) == 0\<close>); the speed the replay passes to \<open>move\<close>;
  no coming call of \<open>handy.move\<close> blocks for more than \<open>D\<close> milliseconds; the response of a
  tick carries a move.
\<close>

definition no_stop_sent :: "world \<Rightarrow> bool" where
  "no_stop_sent w = (\<forall>p\<in>set (puts (snd (device w))). fst p \<noteq> ''hamp/stop'')"

definition is_stop_speed :: "pyval \<Rightarrow> bool" where
  "is_stop_speed v = (case py_float v of Inl e \<Rightarrow> False
                      | Inr f \<Rightarrow> (case py_int f of Inl e \<Rightarrow> False | Inr n \<Rightarrow> n = 0))"

definition io_le :: "nat \<Rightarrow> world \<Rightarrow> bool" where
  "io_le D w = (\<forall>d\<in>set (io_times w). d \<le> D)"

definition replay_speed :: "move_dict \<Rightarrow> pyval" where
  "replay_speed m = get_or (d_sp m) (py_of_int 10)"

definition slow_world :: world where
  "slow_world = world0\<lparr>io_times := [120, 300, 80]\<rparr>"

definition quiet_tick :: tick_input where
  "quiet_tick = \<lparr>t_timings = (3000, 6000), t_user_message = None, t_llm = LLM_raises, t_signal = False\<rparr>"

definition moved_device :: "HandyController \<times> transport" where
  "moved_device =
     ((init ''key'' 0 0)\<lparr>last_relative_speed := 40, last_depth_pos := 50,
                         last_stroke_speed := 38, manual_mode_active := True\<rparr>,
      \<lparr>pending = [],
       puts = [(''mode'', [(''mode'', 0)]), (''hamp/start'', []),
               (''slide'', [(''min'', 35), (''max'', 65)]),
               (''hamp/velocity'', [(''velocity'', 38)])],
       errlog = []\<rparr>)"

definition has_move :: "tick_input \<Rightarrow> bool" where
  "has_move inp =
     (case t_llm inp of
        LLM_raises \<Rightarrow> False
      | LLM_returns resp \<Rightarrow>
          (case resp of
             None \<Rightarrow> False
           | Some r \<Rightarrow> (case r_move r of None \<Rightarrow> False | Some md \<Rightarrow> truthy md)))"

definition edge_tick_no_move :: tick_input where
  "edge_tick_no_move =
     \<lparr>t_timings = (3000, 6000), t_user_message = None, t_llm = LLM_returns None, t_signal = True\<rparr>"

definition move_tick :: tick_input where
  "move_tick =
     \<lparr>t_timings = (3000, 6000), t_user_message = None,
      t_llm = LLM_returns (Some \<lparr>r_chat = None,
                r_move = Some \<lparr>d_sp = Some (py_of_int 30), d_dp = Some (py_of_int 50),
                                d_rng = Some (py_of_int 40), d_other = False\<rparr>,
                r_moves = None\<rparr>),
      t_signal = False\<rparr>"

definition edging_after_edge :: edging_state where
  "edging_after_edge =
     \<lparr>ew = world0\<lparr>now := 1000, draws := [1, 3000], mood_log := [''Dominant'']\<rparr>,
      edge_count = 1, current_state = ''PULL_BACK'', user_signal_event = False,
      prompts = [(EdgePrompt 1, 1)]\<rparr>"

definition edging_after_move :: edging_state where
  "edging_after_move =
     \<lparr>ew = world0\<lparr>device :=
                   ((init ''key'' 0 0)\<lparr>last_relative_speed := 30, last_depth_pos := 50,
                                       last_stroke_speed := 31, manual_mode_active := True\<rparr>,
                    \<lparr>pending = [],
                     puts = [(''mode'', [(''mode'', 0)]), (''hamp/start'', []),
                             (''slide'', [(''min'', 30), (''max'', 70)]),
                             (''hamp/velocity'', [(''velocity'', 31)])],
                     errlog = []\<rparr>),
                 now := 4000, draws := [], mood_log := [''Dominant'', ''Seductive'']\<rparr>,
      edge_count = 1, current_state = ''TEASE'', user_signal_event = False,
      prompts = [(EdgePrompt 1, 1), (PhasePrompt ''BUILD_UP'' None, 1)]\<rparr>"

section \<open>Properties of the device controller\<close>

subsection \<open>Auxiliary facts\<close>

lemma py_round_zero_trunc: "py_round q = 0 \<Longrightarrow> trunc q = 0"
  unfolding py_round_def trunc_def Let_def
  by (auto split: if_splits simp: floor_eq_iff ceiling_eq_iff) linarith+

lemma puts_send_command:
  "puts (send_command c path bdy t) = puts t @ (if handy_key c = [] then [] else [(path, bdy)])"
  by (simp add: send_command_def split: list.splits put_outcome.splits)

lemma emitted_append: "puts t' = puts t @ xs \<Longrightarrow> emitted t t' = xs"
  by (simp add: emitted_def)

lemma emitted_same: "emitted t t = []"
  by (simp add: emitted_def)

lemma move_trunc_zero:
  "handy_key (fst s) \<noteq> [] \<Longrightarrow> trunc q = 0 \<Longrightarrow> move (PyNum (Fin q)) depth stroke_range s = Inr (stop s)"
  by (simp add: move_def)

lemma move_empty_key: "handy_key (fst s) = [] \<Longrightarrow> move speed depth stroke_range s = Inr s"
  by (simp add: move_def)

lemma stop_empty_key: "handy_key (fst s) = [] \<Longrightarrow> stop s = s"
  by (cases s) (simp add: stop_def)

lemma puts_stop: "puts (snd (stop s)) = puts (snd s) @ (if handy_key (fst s) = [] then [] else [(''hamp/stop'', [])])"
  by (cases s) (simp add: stop_def puts_send_command)

lemma fst_stop: "handy_key c \<noteq> [] \<Longrightarrow>
  fst (stop (c, t)) = c\<lparr>last_stroke_speed := 0, last_relative_speed := 0, manual_mode_active := False\<rparr>"
  by (simp add: stop_def)

lemma slide_window_raw_cong:
  "max_handy_depth c = max_handy_depth c' \<Longrightarrow> min_handy_depth c = min_handy_depth c' \<Longrightarrow>
   MIN_SPAN_POINTS c = MIN_SPAN_POINTS c' \<Longrightarrow> PREFERRED_SPAN_POINTS c = PREFERRED_SPAN_POINTS c' \<Longrightarrow>
   slide_window_raw c d r = slide_window_raw c' d r"
  by (simp only: slide_window_raw_def)

lemma final_velocity_cong:
  "max_user_speed c = max_user_speed c' \<Longrightarrow> min_user_speed c = min_user_speed c' \<Longrightarrow>
   final_velocity c v = final_velocity c' v"
  by (simp only: final_velocity_def)

lemma send_command_cong:
  "handy_key c = handy_key c' \<Longrightarrow> send_command c p bd t = send_command c' p bd t"
  by (simp only: send_command_def)

lemma slide_window_raw_frame [simp]:
  "slide_window_raw (c\<lparr>manual_mode_active := b\<rparr>) d r = slide_window_raw c d r"
  by (rule slide_window_raw_cong) simp_all

lemma final_velocity_frame [simp]:
  "final_velocity (c\<lparr>manual_mode_active := b\<rparr>) v = final_velocity c v"
  by (rule final_velocity_cong) simp_all

lemma send_command_frame [simp]:
  "send_command (c\<lparr>manual_mode_active := b\<rparr>) p bd t = send_command c p bd t"
  by (rule send_command_cong) simp

lemma move_nonstop:
  assumes "handy_key c \<noteq> []" "is_nonstop speed"
  shows "move speed depth stroke_range (c, t) =
           Inr (apply_move_parameters (pct speed) (pct depth) (pct stroke_range) (ensure_manual_mode (c, t)))"
  using assms by (auto simp: move_def is_nonstop_def split: sum.splits)

lemma puts_ensure_manual_mode:
  "handy_key c \<noteq> [] \<Longrightarrow> puts (snd (ensure_manual_mode (c, t))) =
      puts t @ (if manual_mode_active c then [] else manual_pair)"
  by (simp add: ensure_manual_mode_def puts_send_command manual_pair_def)

lemma fst_ensure_manual_mode: "fst (ensure_manual_mode (c, t)) = c\<lparr>manual_mode_active := True\<rparr>"
  by (simp add: ensure_manual_mode_def)

lemma puts_apply_move_parameters:
  "handy_key c \<noteq> [] \<Longrightarrow>
   puts (snd (apply_move_parameters (pct speed) (pct depth) (pct rng) (c, t))) =
     puts t @ move_commands c speed depth rng"
  by (simp add: apply_move_parameters_def move_commands_def puts_send_command Let_def split: prod.splits)

lemma fst_apply_move_parameters:
  "fst (apply_move_parameters sp dp rng (c, t)) =
     c\<lparr>last_relative_speed := py_round sp, last_depth_pos := py_round dp,
       last_stroke_speed := final_velocity c sp\<rparr>"
  by (simp add: apply_move_parameters_def Let_def split: prod.splits)

lemma move_commands_frame [simp]:
  "move_commands (c\<lparr>manual_mode_active := b\<rparr>) v d r = move_commands c v d r"
  by (simp add: move_commands_def)

lemma move_nonstop_result:
  assumes "handy_key c \<noteq> []" "is_nonstop speed"
  shows "\<exists>t'. move speed depth rng (c, t) =
           Inr (c\<lparr>manual_mode_active := True, last_relative_speed := py_round (pct speed),
                  last_depth_pos := py_round (pct depth),
                  last_stroke_speed := final_velocity c (pct speed)\<rparr>, t')
         \<and> puts t' = puts t @ (if manual_mode_active c then [] else manual_pair)
                       @ move_commands c speed depth rng"
proof -
  obtain c1 t1 where e: "ensure_manual_mode (c, t) = (c1, t1)" by (cases "ensure_manual_mode (c, t)")
  have c1: "c1 = c\<lparr>manual_mode_active := True\<rparr>" using fst_ensure_manual_mode[of c t] e by simp
  have t1: "puts t1 = puts t @ (if manual_mode_active c then [] else manual_pair)"
    using puts_ensure_manual_mode[OF assms(1), of t] e by simp
  have k1: "handy_key c1 \<noteq> []" using c1 assms(1) by simp
  obtain c2 t2 where a: "apply_move_parameters (pct speed) (pct depth) (pct rng) (c1, t1) = (c2, t2)"
    by (cases "apply_move_parameters (pct speed) (pct depth) (pct rng) (c1, t1)")
  have c2: "c2 = c1\<lparr>last_relative_speed := py_round (pct speed), last_depth_pos := py_round (pct depth),
       last_stroke_speed := final_velocity c1 (pct speed)\<rparr>"
    using fst_apply_move_parameters[of "pct speed" "pct depth" "pct rng" c1 t1] a by simp
  have t2: "puts t2 = puts t1 @ move_commands c1 speed depth rng"
    using puts_apply_move_parameters[OF k1, of speed depth rng t1] a by simp
  have "move speed depth rng (c, t) = Inr (c2, t2)"
    using move_nonstop[OF assms, of depth rng t] e a by simp
  then show ?thesis using c1 c2 t1 t2 by simp
qed

lemma filter_manual_move_commands: "filter is_manual_cmd (move_commands c v d r) = []"
  by (simp add: move_commands_def is_manual_cmd_def split: prod.splits)

lemma filter_manual_pair: "filter is_manual_cmd manual_pair = manual_pair"
  by (simp add: manual_pair_def is_manual_cmd_def)

lemma move_nonstop_emitted:
  assumes "handy_key c \<noteq> []" "is_nonstop speed"
  shows "\<exists>c' t'. move speed depth rng (c, t) = Inr (c', t')
           \<and> handy_key c' = handy_key c \<and> manual_mode_active c'
           \<and> emitted t t' = (if manual_mode_active c then [] else manual_pair)
                               @ move_commands c speed depth rng"
proof -
  obtain t' where m: "move speed depth rng (c, t) =
           Inr (c\<lparr>manual_mode_active := True, last_relative_speed := py_round (pct speed),
                  last_depth_pos := py_round (pct depth),
                  last_stroke_speed := final_velocity c (pct speed)\<rparr>, t')"
    and p: "puts t' = puts t @ (if manual_mode_active c then [] else manual_pair)
                       @ move_commands c speed depth rng"
    using move_nonstop_result[OF assms, of depth rng t] by blast
  have e: "emitted t t' = (if manual_mode_active c then [] else manual_pair)
                       @ move_commands c speed depth rng"
    by (rule emitted_append) (rule p)
  show ?thesis using m e by simp
qed

lemma move_clears_manual_only_by_stop:
  assumes "move speed depth rng s = Inr s'" "manual_mode_active (fst s)" "\<not> manual_mode_active (fst s')"
  shows "s' = stop s \<and> \<not> is_nonstop speed"
proof (cases "handy_key (fst s) = []")
  case True
  then show ?thesis using assms by (simp add: move_empty_key)
next
  case False
  show ?thesis
  proof (cases "is_nonstop speed")
    case True
    obtain c t where s: "s = (c, t)" by (cases s)
    from move_nonstop_emitted[of c speed depth rng t] False True s assms show ?thesis by auto
  next
    case False
    then show ?thesis using assms \<open>handy_key (fst s) \<noteq> []\<close>
      by (auto simp: move_def is_nonstop_def split: sum.splits if_splits)
  qed
qed

lemma move_zero_result:
  assumes "handy_key c \<noteq> []" "py_float speed = Inr f" "py_int f = Inr 0"
  shows "\<exists>t'. move speed depth rng (c, t) =
           Inr (c\<lparr>last_stroke_speed := 0, last_relative_speed := 0, manual_mode_active := False\<rparr>, t')
         \<and> puts t' = puts t @ [(''hamp/stop'', [])]"
  using assms by (simp add: move_def stop_def puts_send_command)

lemma slide_window_raw_5_50:
  assumes "min_handy_depth c = 0" "max_handy_depth c = 100" "MIN_SPAN_POINTS c = 0" "PREFERRED_SPAN_POINTS c = 0"
  shows "slide_window_raw c (pct (PyNum (Fin 5))) (pct (PyNum (Fin 50))) = (50, -20, 30)"
proof -
  have "slide_window_raw c (pct (PyNum (Fin 5))) (pct (PyNum (Fin 50)))
      = slide_window_raw (init [] 0 0) (pct (PyNum (Fin 5))) (pct (PyNum (Fin 50)))"
    by (rule slide_window_raw_cong) (simp_all add: assms init_def)
  also have "\<dots> = (50, -20, 30)" by code_simp
  finally show ?thesis .
qed

lemma boundary_correct_5_50: "boundary_correct 50 (-20, 30) = (0, 50)"
  by (simp add: boundary_correct_def)

lemma move_commands_5_50:
  assumes "min_handy_depth c = 0" "max_handy_depth c = 100" "MIN_SPAN_POINTS c = 0" "PREFERRED_SPAN_POINTS c = 0"
  shows "move_commands c speed (PyNum (Fin 5)) (PyNum (Fin 50)) =
          [(''slide'', [(''min'', 0), (''max'', 50)]),
           (''hamp/velocity'', [(''velocity'', final_velocity c (pct speed))])]"
  by (simp add: move_commands_def slide_window_raw_5_50[OF assms] boundary_correct_5_50)

subsection \<open>A move whose speed rounds to zero is a stop\<close>

text \<open>
  Claim C4. For every depth and range, \<open>move(speed, depth, range)\<close> with a speed that
  rounds to 0 is \<open>stop()\<close>: same controller state, same transport; it sends the stop
  request and neither a slide nor a velocity request. The guard of the source truncates
  (\<open>int(float(speed))\<close>); a number that rounds to 0 also truncates to 0.
\<close>

theorem move_speed_rounds_to_zero_is_stop:
  assumes "py_round q = 0"
  shows "move (PyNum (Fin q)) depth stroke_range s = Inr (stop s)
       \<and> (\<forall>p \<in> set (emitted (snd s) (snd (stop s))). fst p \<noteq> ''slide'' \<and> fst p \<noteq> ''hamp/velocity'')
       \<and> (handy_key (fst s) \<noteq> [] \<longrightarrow> emitted (snd s) (snd (stop s)) = [(''hamp/stop'', [])])"
proof -
  have tz: "trunc q = 0" using assms by (rule py_round_zero_trunc)
  have m: "move (PyNum (Fin q)) depth stroke_range s = Inr (stop s)"
  proof (cases "handy_key (fst s) = []")
    case True
    then show ?thesis by (simp add: move_empty_key stop_empty_key)
  next
    case False
    then show ?thesis using tz by (simp add: move_trunc_zero)
  qed
  have e: "emitted (snd s) (snd (stop s)) = (if handy_key (fst s) = [] then [] else [(''hamp/stop'', [])])"
    by (rule emitted_append) (rule puts_stop)
  show ?thesis using m e by simp
qed

theorem move_speed_rounds_to_zero_is_stop_witness:
  "py_round (2 / 5) = 0
   \<and> move (PyNum (Fin (2 / 5))) (PyNum (Fin 5)) (PyNum (Fin 50)) (init ''key'' 0 0, fresh_transport [])
       = Inr (stop (init ''key'' 0 0, fresh_transport []))
   \<and> emitted (fresh_transport []) (snd (stop (init ''key'' 0 0, fresh_transport []))) = [(''hamp/stop'', [])]"
proof -
  have h: "py_round (2 / 5) = 0" by code_simp
  have k: "handy_key (fst (init ''key'' 0 0, fresh_transport [])) \<noteq> []" by (simp add: init_def)
  show ?thesis
    using h k move_speed_rounds_to_zero_is_stop [OF h, of "PyNum (Fin 5)" "PyNum (Fin 50)" "(init ''key'' 0 0, fresh_transport [])"]
    by simp
qed

subsection \<open>Manual mode is entered once per batch\<close>

text \<open>
  Claim C5. With a key set and manual mode off, of two consecutive moves that are not
  stops only the first sends the pair "mode 0", "hamp/start" (first in its requests, and
  once); after \<open>stop()\<close> the flag is off and the next move sends the pair again. The flag
  goes on with the first such move, and a \<open>move\<close> call that finds it on and leaves it off
  was a stop.
\<close>

theorem manual_mode_pair_once:
  assumes key: "handy_key c \<noteq> []" and off: "\<not> manual_mode_active c"
    and va: "is_nonstop va" and vb: "is_nonstop vb"
  shows "(\<exists>c1 t1 c2 t2 c3 t3 c4 t4.
           move va da ra (c, t) = Inr (c1, t1) \<and> manual_mode_active c1
         \<and> take 2 (emitted t t1) = manual_pair
         \<and> filter is_manual_cmd (emitted t t1) = manual_pair
         \<and> move vb db rb (c1, t1) = Inr (c2, t2) \<and> manual_mode_active c2
         \<and> filter is_manual_cmd (emitted t1 t2) = []
         \<and> stop (c2, t2) = (c3, t3) \<and> \<not> manual_mode_active c3
         \<and> move vb db rb (c3, t3) = Inr (c4, t4) \<and> manual_mode_active c4
         \<and> filter is_manual_cmd (emitted t3 t4) = manual_pair)
       \<and> (\<forall>s s' v d r. move v d r s = Inr s' \<and> manual_mode_active (fst s)
              \<and> \<not> manual_mode_active (fst s') \<longrightarrow> s' = stop s)"
proof -
  obtain c1 t1 where m1: "move va da ra (c, t) = Inr (c1, t1)" and k1: "handy_key c1 = handy_key c"
    and a1: "manual_mode_active c1"
    and e1: "emitted t t1 = manual_pair @ move_commands c va da ra"
    using move_nonstop_emitted[OF key va, of da ra t] off by auto
  have k1': "handy_key c1 \<noteq> []" using k1 key by simp
  obtain c2 t2 where m2: "move vb db rb (c1, t1) = Inr (c2, t2)" and k2: "handy_key c2 = handy_key c1"
    and a2: "manual_mode_active c2"
    and e2: "emitted t1 t2 = move_commands c1 vb db rb"
    using move_nonstop_emitted[OF k1' vb, of db rb t1] a1 by auto
  have k2': "handy_key c2 \<noteq> []" using k2 k1' by simp
  obtain c3 t3 where s3: "stop (c2, t2) = (c3, t3)" by (cases "stop (c2, t2)")
  have c3: "c3 = c2\<lparr>last_stroke_speed := 0, last_relative_speed := 0, manual_mode_active := False\<rparr>"
    using fst_stop[OF k2', of t2] s3 by simp
  have k3': "handy_key c3 \<noteq> []" and a3: "\<not> manual_mode_active c3" using c3 k2' by simp_all
  obtain c4 t4 where m4: "move vb db rb (c3, t3) = Inr (c4, t4)"
    and a4: "manual_mode_active c4"
    and e4: "emitted t3 t4 = manual_pair @ move_commands c3 vb db rb"
    using move_nonstop_emitted[OF k3' vb, of db rb t3] a3 by auto
  have f1: "filter is_manual_cmd (emitted t t1) = manual_pair"
    unfolding e1 by (simp add: filter_manual_pair filter_manual_move_commands)
  have tk: "take 2 (emitted t t1) = manual_pair"
    unfolding e1 by (simp add: manual_pair_def)
  have f2: "filter is_manual_cmd (emitted t1 t2) = []"
    unfolding e2 by (simp add: filter_manual_move_commands)
  have f4: "filter is_manual_cmd (emitted t3 t4) = manual_pair"
    unfolding e4 by (simp add: filter_manual_pair filter_manual_move_commands)
  have first: "\<exists>c1 t1 c2 t2 c3 t3 c4 t4.
           move va da ra (c, t) = Inr (c1, t1) \<and> manual_mode_active c1
         \<and> take 2 (emitted t t1) = manual_pair
         \<and> filter is_manual_cmd (emitted t t1) = manual_pair
         \<and> move vb db rb (c1, t1) = Inr (c2, t2) \<and> manual_mode_active c2
         \<and> filter is_manual_cmd (emitted t1 t2) = []
         \<and> stop (c2, t2) = (c3, t3) \<and> \<not> manual_mode_active c3
         \<and> move vb db rb (c3, t3) = Inr (c4, t4) \<and> manual_mode_active c4
         \<and> filter is_manual_cmd (emitted t3 t4) = manual_pair"
    using m1 a1 tk f1 m2 a2 f2 s3 a3 m4 a4 f4 by blast
  have second: "\<forall>s s' v d r. move v d r s = Inr s' \<and> manual_mode_active (fst s)
              \<and> \<not> manual_mode_active (fst s') \<longrightarrow> s' = stop s"
    using move_clears_manual_only_by_stop by blast
  show ?thesis using first second by (rule conjI)
qed

theorem manual_mode_pair_once_witness:
  "handy_key (init ''key'' 0 0) \<noteq> [] \<and> \<not> manual_mode_active (init ''key'' 0 0)
   \<and> is_nonstop (PyNum (Fin 40)) \<and> is_nonstop (PyNum (Fin 60))
   \<and> (\<exists>c1 t1 c2 t2 c3 t3 c4 t4.
         move (PyNum (Fin 40)) (PyNum (Fin 50)) (PyNum (Fin 50)) (init ''key'' 0 0, fresh_transport [])
           = Inr (c1, t1) \<and> manual_mode_active c1
       \<and> take 2 (emitted (fresh_transport []) t1) = manual_pair
       \<and> filter is_manual_cmd (emitted (fresh_transport []) t1) = manual_pair
       \<and> move (PyNum (Fin 60)) (PyNum (Fin 30)) (PyNum (Fin 20)) (c1, t1) = Inr (c2, t2)
       \<and> manual_mode_active c2
       \<and> filter is_manual_cmd (emitted t1 t2) = []
       \<and> stop (c2, t2) = (c3, t3) \<and> \<not> manual_mode_active c3
       \<and> move (PyNum (Fin 60)) (PyNum (Fin 30)) (PyNum (Fin 20)) (c3, t3) = Inr (c4, t4)
       \<and> manual_mode_active c4
       \<and> filter is_manual_cmd (emitted t3 t4) = manual_pair)"
proof -
  have h1: "handy_key (init ''key'' 0 0) \<noteq> []" by (simp add: init_def)
  have h2: "\<not> manual_mode_active (init ''key'' 0 0)" by (simp add: init_def)
  have h3: "is_nonstop (PyNum (Fin 40))" by (simp add: is_nonstop_def trunc_def)
  have h4: "is_nonstop (PyNum (Fin 60))" by (simp add: is_nonstop_def trunc_def)
  show ?thesis
    using h1 h2 h3 h4
      manual_mode_pair_once [OF h1 h2 h3 h4, where da = "PyNum (Fin 50)" and ra = "PyNum (Fin 50)"
        and db = "PyNum (Fin 30)" and rb = "PyNum (Fin 20)" and t = "fresh_transport []"]
    by blast
qed

subsection \<open>The boundary correction of the slide window\<close>

text \<open>
  Claim C6. With calibration 0..100 and no span floor or preference, a move at depth 5 and
  range 50 computes the window (-20, 30) for a span of 50, and the slide request it sends
  carries the corrected window (0, 50).
\<close>

theorem boundary_correction_5_50:
  assumes "handy_key c \<noteq> []" and "is_nonstop speed"
    and "min_handy_depth c = 0" and "max_handy_depth c = 100"
    and "MIN_SPAN_POINTS c = 0" and "PREFERRED_SPAN_POINTS c = 0"
  shows "slide_window_raw c (pct (PyNum (Fin 5))) (pct (PyNum (Fin 50))) = (50, -20, 30)
       \<and> boundary_correct 50 (-20, 30) = (0, 50)
       \<and> (\<exists>c' t'. move speed (PyNum (Fin 5)) (PyNum (Fin 50)) (c, t) = Inr (c', t')
             \<and> filter (\<lambda>p. fst p = ''slide'') (emitted t t') = [(''slide'', [(''min'', 0), (''max'', 50)])])"
proof -
  note cal = assms(3-6)
  obtain t' where m: "move speed (PyNum (Fin 5)) (PyNum (Fin 50)) (c, t) =
           Inr (c\<lparr>manual_mode_active := True, last_relative_speed := py_round (pct speed),
                  last_depth_pos := py_round (pct (PyNum (Fin 5))),
                  last_stroke_speed := final_velocity c (pct speed)\<rparr>, t')"
    and p: "puts t' = puts t @ (if manual_mode_active c then [] else manual_pair)
                       @ move_commands c speed (PyNum (Fin 5)) (PyNum (Fin 50))"
    using move_nonstop_result[OF assms(1,2), of "PyNum (Fin 5)" "PyNum (Fin 50)" t] by blast
  have e: "emitted t t' = (if manual_mode_active c then [] else manual_pair)
                       @ move_commands c speed (PyNum (Fin 5)) (PyNum (Fin 50))"
    by (rule emitted_append) (rule p)
  have f: "filter (\<lambda>p. fst p = ''slide'') (emitted t t') = [(''slide'', [(''min'', 0), (''max'', 50)])]"
    unfolding e move_commands_5_50[OF cal] by (simp add: manual_pair_def)
  show ?thesis using slide_window_raw_5_50[OF cal] boundary_correct_5_50 m f by blast
qed

theorem boundary_correction_5_50_witness:
  "handy_key (init ''key'' 0 0) \<noteq> [] \<and> is_nonstop (PyNum (Fin 40))
   \<and> min_handy_depth (init ''key'' 0 0) = 0 \<and> max_handy_depth (init ''key'' 0 0) = 100
   \<and> MIN_SPAN_POINTS (init ''key'' 0 0) = 0 \<and> PREFERRED_SPAN_POINTS (init ''key'' 0 0) = 0
   \<and> slide_window_raw (init ''key'' 0 0) (pct (PyNum (Fin 5))) (pct (PyNum (Fin 50))) = (50, -20, 30)
   \<and> (\<exists>c' t'. move (PyNum (Fin 40)) (PyNum (Fin 5)) (PyNum (Fin 50)) (init ''key'' 0 0, fresh_transport []) = Inr (c', t')
         \<and> filter (\<lambda>p. fst p = ''slide'') (emitted (fresh_transport []) t') = [(''slide'', [(''min'', 0), (''max'', 50)])])"
proof -
  have h1: "handy_key (init ''key'' 0 0) \<noteq> []" by (simp add: init_def)
  have h2: "is_nonstop (PyNum (Fin 40))" by (simp add: is_nonstop_def trunc_def)
  have h3: "min_handy_depth (init ''key'' 0 0) = 0" by (simp add: init_def)
  have h4: "max_handy_depth (init ''key'' 0 0) = 100" by (simp add: init_def)
  have h5: "MIN_SPAN_POINTS (init ''key'' 0 0) = 0" by (simp add: init_def)
  have h6: "PREFERRED_SPAN_POINTS (init ''key'' 0 0) = 0" by (simp add: init_def)
  show ?thesis
    using h1 h2 h3 h4 h5 h6 boundary_correction_5_50 [OF h1 h2 h3 h4 h5 h6, of "fresh_transport []"]
    by blast
qed

subsection \<open>Transport failures stay inside the controller\<close>

text \<open>
  Claim C8. Whatever the transport does with the requests of a \<open>move\<close> call (answer or
  raise \<open>RequestException\<close>), the call returns normally, issues the same requests and
  leaves the controller in the state it has when every request is answered: the rounded
  clamped speed and depth and the velocity sent. The hypotheses say that
  \<open>int(float(speed))\<close> is defined, the one place where \<open>move\<close> itself can raise.
\<close>

theorem transport_failure_absorbed:
  assumes key: "handy_key c \<noteq> []" and fl: "py_float speed = Inr f" and tr: "py_int f = Inr n"
  shows "\<exists>c' t' t''.
           move speed depth rng (c, t) = Inr (c', t')
         \<and> move speed depth rng (c, t\<lparr>pending := []\<rparr>) = Inr (c', t'')
         \<and> puts t' = puts t''
         \<and> (n \<noteq> 0 \<longrightarrow> last_relative_speed c' = py_round (pct speed)
                      \<and> last_depth_pos c' = py_round (pct depth)
                      \<and> last_stroke_speed c' = final_velocity c (pct speed))
         \<and> (n = 0 \<longrightarrow> last_relative_speed c' = 0 \<and> last_stroke_speed c' = 0)"
proof (cases "n = 0")
  case True
  with tr have tr0: "py_int f = Inr 0" by simp
  from move_zero_result[OF key fl tr0, of depth rng t]
       move_zero_result[OF key fl tr0, of depth rng "t\<lparr>pending := []\<rparr>"] True
  show ?thesis by auto
next
  case False
  with fl tr have ns: "is_nonstop speed" by (simp add: is_nonstop_def)
  from move_nonstop_result[OF key ns, of depth rng t]
       move_nonstop_result[OF key ns, of depth rng "t\<lparr>pending := []\<rparr>"] False
  show ?thesis by auto
qed

text \<open>
  One run with three failing requests out of four: all four are issued, three lines are
  logged, the state is that of a successful move.
\<close>

lemma transport_failure_example:
  "move (PyNum (Fin 40)) (PyNum (Fin 5)) (PyNum (Fin 50))
        (init ''key'' 0 0, fresh_transport [RequestException, Responded, RequestException, RequestException])
   = Inr ((init ''key'' 0 0)\<lparr>last_relative_speed := 40, last_depth_pos := 5, last_stroke_speed := 38,
                              manual_mode_active := True\<rparr>,
          \<lparr>pending = [],
           puts = [(''mode'', [(''mode'', 0)]), (''hamp/start'', []),
                   (''slide'', [(''min'', 0), (''max'', 50)]),
                   (''hamp/velocity'', [(''velocity'', 38)])],
           errlog = [''[HANDY ERROR] PUT mode failed'', ''[HANDY ERROR] PUT slide failed'',
                     ''[HANDY ERROR] PUT hamp/velocity failed'']\<rparr>)"
  by code_simp

theorem transport_failure_absorbed_witness:
  "handy_key (init ''key'' 0 0) \<noteq> [] \<and> py_float (PyNum (Fin 40)) = Inr (Fin 40) \<and> py_int (Fin 40) = Inr 40
   \<and> (\<exists>c' t' t''.
         move (PyNum (Fin 40)) (PyNum (Fin 5)) (PyNum (Fin 50))
              (init ''key'' 0 0, fresh_transport [RequestException, Responded, RequestException, RequestException])
           = Inr (c', t')
       \<and> move (PyNum (Fin 40)) (PyNum (Fin 5)) (PyNum (Fin 50))
              (init ''key'' 0 0, (fresh_transport [RequestException, Responded, RequestException, RequestException])\<lparr>pending := []\<rparr>)
           = Inr (c', t'')
       \<and> puts t' = puts t''
       \<and> last_relative_speed c' = py_round (pct (PyNum (Fin 40)))
       \<and> last_depth_pos c' = py_round (pct (PyNum (Fin 5)))
       \<and> last_stroke_speed c' = final_velocity (init ''key'' 0 0) (pct (PyNum (Fin 40))))"
proof -
  have h1: "handy_key (init ''key'' 0 0) \<noteq> []" by (simp add: init_def)
  have h2: "py_float (PyNum (Fin 40)) = Inr (Fin 40)" by simp
  have h3: "py_int (Fin 40) = Inr 40" by (simp add: trunc_def)
  show ?thesis
    using h1 h2 h3 transport_failure_absorbed [OF h1 h2 h3, of "PyNum (Fin 5)" "PyNum (Fin 50)"
        "fresh_transport [RequestException, Responded, RequestException, RequestException]"]
    by simp
qed

subsection \<open>Without a key nothing is sent or stored\<close>

text \<open>
  Claim C10. With an empty key \<open>move\<close> and \<open>stop\<close> return at once: no request, no field
  changed; \<open>stop\<close> then leaves the last speed, the last velocity and the manual-mode flag
  as they were.
\<close>

theorem empty_key_no_effect:
  assumes "handy_key c = []"
  shows "move speed depth stroke_range (c, t) = Inr (c, t)
       \<and> stop (c, t) = (c, t)
       \<and> emitted t (snd (stop (c, t))) = []
       \<and> last_relative_speed (fst (stop (c, t))) = last_relative_speed c
       \<and> last_stroke_speed (fst (stop (c, t))) = last_stroke_speed c
       \<and> manual_mode_active (fst (stop (c, t))) = manual_mode_active c"
  using assms by (simp add: move_empty_key stop_empty_key emitted_same)

theorem empty_key_no_effect_witness:
  "handy_key (set_api_key [] ((init ''key'' 0 0)\<lparr>last_relative_speed := 40, last_stroke_speed := 38, manual_mode_active := True\<rparr>)) = []
   \<and> stop (set_api_key [] ((init ''key'' 0 0)\<lparr>last_relative_speed := 40, last_stroke_speed := 38, manual_mode_active := True\<rparr>), fresh_transport [])
       = (set_api_key [] ((init ''key'' 0 0)\<lparr>last_relative_speed := 40, last_stroke_speed := 38, manual_mode_active := True\<rparr>), fresh_transport [])
   \<and> last_stroke_speed (fst (stop (set_api_key [] ((init ''key'' 0 0)\<lparr>last_relative_speed := 40, last_stroke_speed := 38, manual_mode_active := True\<rparr>), fresh_transport []))) = 38
   \<and> manual_mode_active (fst (stop (set_api_key [] ((init ''key'' 0 0)\<lparr>last_relative_speed := 40, last_stroke_speed := 38, manual_mode_active := True\<rparr>), fresh_transport [])))"
  using empty_key_no_effect [of "set_api_key [] ((init ''key'' 0 0)\<lparr>last_relative_speed := 40, last_stroke_speed := 38, manual_mode_active := True\<rparr>)"
      "PyNum (Fin 40)" "PyNum (Fin 5)" "PyNum (Fin 50)" "fresh_transport []"]
  by (simp add: set_api_key_def init_def)

section \<open>Properties of the move generator\<close>

lemma ENVELOPES_cases:
  "envelope_of p = WARM_UP \<or> envelope_of p = ACTIVE \<or> envelope_of p = RECOVERY"
  by (simp add: envelope_of_def ENVELOPES_def)

lemma valid_envelope_of: "valid_env (envelope_of p)"
  using ENVELOPES_cases[of p] by (auto simp: valid_env_def WARM_UP_def ACTIVE_def RECOVERY_def)

lemma envelope_of_RECOVERY: "envelope_of ''RECOVERY'' = RECOVERY"
  by (simp add: envelope_of_def ENVELOPES_def)

lemma randint_range: "a \<le> b \<Longrightarrow> randint a b rnd = (v, r') \<Longrightarrow> a \<le> v \<and> v \<le> b"
  by (cases rnd) auto

lemma clamp_range: "lo \<le> hi \<Longrightarrow> lo \<le> clamp v lo hi \<and> clamp v lo hi \<le> hi"
  by (simp add: clamp_def)

lemma clamp_near: "lo \<le> p \<Longrightarrow> p \<le> hi \<Longrightarrow> \<bar>clamp v lo hi - p\<bar> \<le> \<bar>v - p\<bar>"
  by (auto simp: clamp_def)

lemma clamp_delta: "0 \<le> d \<Longrightarrow> \<bar>(p + clamp (v - p) (- d) d) - p\<bar> \<le> d"
  by (simp add: clamp_def)

lemma generate_move_cases:
  assumes "generate_move env pu cues moves lm rnd = (m, r')"
  obtains base_sp0 dp0 rng0 duration0 r1 dp1 rng1 o1 o2 r2 dp2 rng2 dpo rngo dur r3 sp sp3 dp3 rng3 sp4 where
    "draw_base env rnd = ((base_sp0, dp0, rng0, duration0), r1)"
    "zone_cues cues dp0 rng0 r1 = ((dp1, rng1, o1, o2), r2)"
    "coming_cue cues (dp1, rng1, o1, o2) duration0 r2 = (((dp2, rng2, dpo, rngo), dur), r3)"
    "sp = compute_sp_adjusted (scale_speed (fst (env_rng env)) (snd (env_rng env))
             (speed_cues cues (fst (env_sp env)) (snd (env_sp env)) base_sp0) rng2) dp2 rng2"
    "enforce_envelope env pu dpo rngo (smooth lm (sp, dp2, rng2)) = (sp3, dp3, rng3)"
    "cadence_hold env moves sp3 r3 = (sp4, r')"
    "m = \<lparr>m_sp = sp4, m_dp = dp3, m_rng = rng3, m_duration = dur\<rparr>"
  using assms unfolding generate_move_def Let_def by (auto split: prod.splits)

lemma draw_base_duration:
  "valid_env env \<Longrightarrow> draw_base env rnd = ((b, d, g, du), r') \<Longrightarrow>
     fst (env_dur env) \<le> du \<and> du \<le> snd (env_dur env)"
  unfolding draw_base_def Let_def valid_env_def
  by (auto split: prod.splits dest: randint_range)

lemma zone_cues_flags:
  "zone_cues cues dp rng rnd = ((dp', rng', o1, o2), r') \<Longrightarrow>
     o1 = (\<not> (tip_only cues \<and> base_only cues) \<and> (tip_only cues \<or> base_only cues \<or> full cues))
   \<and> o2 = o1"
  unfolding zone_cues_def Let_def by (auto split: prod.splits if_splits)

lemma coming_cue_flags:
  assumes "coming_cue cues (dp, rng, o1, o2) du rnd = (((dp', rng', dpo, rngo), du'), r')"
    and "o2 = o1"
  shows "dpo = (o1 \<or> coming cues) \<and> rngo = (o1 \<or> coming cues)"
  using assms unfolding coming_cue_def Let_def by (auto split: prod.splits if_splits)

lemma coming_cue_duration:
  assumes "coming_cue cues z du rnd = ((z', du'), r')"
  shows "if coming cues then 3500 \<le> du' \<and> du' \<le> 7000 else du' = du"
  using assms unfolding coming_cue_def Let_def
  by (auto split: prod.splits if_splits dest!: randint_range[rotated])

lemma enforce_envelope_eq:
  "enforce_envelope env pu dpo rngo (s, d, g) =
     (if pu = ''RECOVERY'' then min (clamp s (fst (env_sp env)) (snd (env_sp env))) 15
      else clamp s (fst (env_sp env)) (snd (env_sp env)),
      if dpo then clamp d 0 100 else clamp d (fst (env_dp env)) (snd (env_dp env)),
      if rngo then clamp g 0 100 else clamp g (fst (env_rng env)) (snd (env_rng env)))"
  by (simp add: enforce_envelope_def Let_def)

lemma enforce_envelope_bounds:
  assumes v: "valid_env env" and rec: "pu = ''RECOVERY'' \<longrightarrow> fst (env_sp env) \<le> 15"
    and e: "enforce_envelope env pu dpo rngo (s, d, g) = (sp, dp, rng)"
  shows "fst (env_sp env) \<le> sp \<and> sp \<le> snd (env_sp env)
       \<and> (if dpo then 0 \<le> dp \<and> dp \<le> 100 else fst (env_dp env) \<le> dp \<and> dp \<le> snd (env_dp env))
       \<and> (if rngo then 0 \<le> rng \<and> rng \<le> 100 else fst (env_rng env) \<le> rng \<and> rng \<le> snd (env_rng env))"
proof -
  have c1: "fst (env_sp env) \<le> clamp s (fst (env_sp env)) (snd (env_sp env))
          \<and> clamp s (fst (env_sp env)) (snd (env_sp env)) \<le> snd (env_sp env)"
    using v by (intro clamp_range) (simp add: valid_env_def)
  have c2: "fst (env_dp env) \<le> clamp d (fst (env_dp env)) (snd (env_dp env))
          \<and> clamp d (fst (env_dp env)) (snd (env_dp env)) \<le> snd (env_dp env)"
    using v by (intro clamp_range) (simp add: valid_env_def)
  have c3: "fst (env_rng env) \<le> clamp g (fst (env_rng env)) (snd (env_rng env))
          \<and> clamp g (fst (env_rng env)) (snd (env_rng env)) \<le> snd (env_rng env)"
    using v by (intro clamp_range) (simp add: valid_env_def)
  have c4: "0 \<le> clamp d 0 100 \<and> clamp d 0 100 \<le> 100" by (intro clamp_range) simp
  have c5: "0 \<le> clamp g 0 100 \<and> clamp g 0 100 \<le> 100" by (intro clamp_range) simp
  have sp: "sp = (if pu = ''RECOVERY'' then min (clamp s (fst (env_sp env)) (snd (env_sp env))) 15
      else clamp s (fst (env_sp env)) (snd (env_sp env)))"
    and dp: "dp = (if dpo then clamp d 0 100 else clamp d (fst (env_dp env)) (snd (env_dp env)))"
    and rng: "rng = (if rngo then clamp g 0 100 else clamp g (fst (env_rng env)) (snd (env_rng env)))"
    using e unfolding enforce_envelope_eq by simp_all
  have "fst (env_sp env) \<le> sp \<and> sp \<le> snd (env_sp env)"
    unfolding sp using c1 rec by auto
  moreover have "if dpo then 0 \<le> dp \<and> dp \<le> 100 else fst (env_dp env) \<le> dp \<and> dp \<le> snd (env_dp env)"
    unfolding dp using c2 c4 by simp
  moreover have "if rngo then 0 \<le> rng \<and> rng \<le> 100 else fst (env_rng env) \<le> rng \<and> rng \<le> snd (env_rng env)"
    unfolding rng using c3 c5 by simp
  ultimately show ?thesis by blast
qed

lemma cadence_hold_cases:
  assumes "cadence_hold env moves sp rnd = (sp', r')"
  shows "sp' = sp \<or> (moves \<noteq> [] \<and> (\<exists>j. - 5 \<le> j \<and> j \<le> 5 \<and>
            sp' = clamp (m_sp (last moves) + j) (fst (env_sp env)) (snd (env_sp env))))"
proof (cases "moves = []")
  case True
  then show ?thesis using assms by (simp add: cadence_hold_def)
next
  case False
  obtain u r1 where u: "random_unit rnd = (u, r1)" by (cases "random_unit rnd")
  obtain j r2 where j: "randint (- 5) 5 r1 = (j, r2)" by (cases "randint (- 5) 5 r1")
  have jr: "- 5 \<le> j \<and> j \<le> 5" using randint_range[OF _ j] by simp
  show ?thesis
  proof (cases "u < 60 / 100")
    case True
    then have "sp' = clamp (m_sp (last moves) + j) (fst (env_sp env)) (snd (env_sp env))"
      using assms False u j by (simp add: cadence_hold_def)
    then show ?thesis using jr False by blast
  next
    case False
    then have "sp' = sp" using assms \<open>moves \<noteq> []\<close> u by (simp add: cadence_hold_def)
    then show ?thesis by simp
  qed
qed

lemma cadence_hold_bounds:
  assumes v: "valid_env env" and b: "fst (env_sp env) \<le> sp \<and> sp \<le> snd (env_sp env)"
    and c: "cadence_hold env moves sp rnd = (sp', r')"
  shows "fst (env_sp env) \<le> sp' \<and> sp' \<le> snd (env_sp env)"
proof -
  have le: "fst (env_sp env) \<le> snd (env_sp env)" using v by (simp add: valid_env_def)
  from cadence_hold_cases[OF c] show ?thesis
  proof
    assume "sp' = sp" then show ?thesis using b by simp
  next
    assume "moves \<noteq> [] \<and> (\<exists>j. - 5 \<le> j \<and> j \<le> 5 \<and>
            sp' = clamp (m_sp (last moves) + j) (fst (env_sp env)) (snd (env_sp env)))"
    then obtain j where "sp' = clamp (m_sp (last moves) + j) (fst (env_sp env)) (snd (env_sp env))" by blast
    then show ?thesis using clamp_range[OF le] by simp
  qed
qed

lemma recovery_speed_bounds:
  "pu = ''RECOVERY'' \<Longrightarrow> fst (env_sp (envelope_of pu)) \<le> 15 \<and> snd (env_sp (envelope_of pu)) \<le> 15"
  by (simp add: envelope_of_RECOVERY RECOVERY_def)

lemma generate_move_flags:
  assumes z: "zone_cues cues dp0 rng0 r1 = ((dp1, rng1, o1, o2), r2)"
    and c: "coming_cue cues (dp1, rng1, o1, o2) duration0 r2 = (((dp2, rng2, dpo, rngo), dur), r3)"
  shows "dpo = overridden cues \<and> rngo = overridden cues"
proof -
  from zone_cues_flags[OF z] have o1: "o1 = (\<not> (tip_only cues \<and> base_only cues) \<and> (tip_only cues \<or> base_only cues \<or> full cues))"
    and o2: "o2 = o1" by simp_all
  from coming_cue_flags[OF c o2] show ?thesis unfolding overridden_def o1 by simp
qed

lemma generate_move_within_bounds:
  assumes g: "generate_move (envelope_of pu) pu cues moves lm rnd = (m, r')"
  shows "within_bounds (envelope_of pu) cues m"
proof -
  let ?env = "envelope_of pu"
  have v: "valid_env ?env" by (rule valid_envelope_of)
  have rec: "pu = ''RECOVERY'' \<longrightarrow> fst (env_sp ?env) \<le> 15" using recovery_speed_bounds by blast
  from g obtain base_sp0 dp0 rng0 duration0 r1 dp1 rng1 o1 o2 r2 dp2 rng2 dpo rngo dur r3 sp sp3 dp3 rng3 sp4 where
    d: "draw_base ?env rnd = ((base_sp0, dp0, rng0, duration0), r1)"
    and z: "zone_cues cues dp0 rng0 r1 = ((dp1, rng1, o1, o2), r2)"
    and c: "coming_cue cues (dp1, rng1, o1, o2) duration0 r2 = (((dp2, rng2, dpo, rngo), dur), r3)"
    and e: "enforce_envelope ?env pu dpo rngo (smooth lm (sp, dp2, rng2)) = (sp3, dp3, rng3)"
    and h: "cadence_hold ?env moves sp3 r3 = (sp4, r')"
    and m: "m = \<lparr>m_sp = sp4, m_dp = dp3, m_rng = rng3, m_duration = dur\<rparr>"
    by (rule generate_move_cases)
  have fl: "dpo = overridden cues" "rngo = overridden cues"
    using generate_move_flags[OF z c] by simp_all
  obtain s dd gg where sm: "smooth lm (sp, dp2, rng2) = (s, dd, gg)" by (cases "smooth lm (sp, dp2, rng2)")
  have eb: "fst (env_sp ?env) \<le> sp3 \<and> sp3 \<le> snd (env_sp ?env)
       \<and> (if dpo then 0 \<le> dp3 \<and> dp3 \<le> 100 else fst (env_dp ?env) \<le> dp3 \<and> dp3 \<le> snd (env_dp ?env))
       \<and> (if rngo then 0 \<le> rng3 \<and> rng3 \<le> 100 else fst (env_rng ?env) \<le> rng3 \<and> rng3 \<le> snd (env_rng ?env))"
    using enforce_envelope_bounds[OF v rec] e sm by simp
  have hb: "fst (env_sp ?env) \<le> sp4 \<and> sp4 \<le> snd (env_sp ?env)"
    using cadence_hold_bounds[OF v _ h] eb by blast
  have du0: "fst (env_dur ?env) \<le> duration0 \<and> duration0 \<le> snd (env_dur ?env)"
    using draw_base_duration[OF v d] .
  have du: "if coming cues then 3500 \<le> dur \<and> dur \<le> 7000
            else fst (env_dur ?env) \<le> dur \<and> dur \<le> snd (env_dur ?env)"
    using coming_cue_duration[OF c] du0 by (simp split: if_splits)
  show ?thesis unfolding within_bounds_def m using hb eb du fl by simp
qed

lemma smooth_Some:
  "smooth (Some p) (sp, dp, rng) =
     (clamp (m_sp p + clamp (sp - m_sp p) (- 6) 6) 1 100,
      clamp (m_dp p + clamp (dp - m_dp p) (- 10) 10) 0 100,
      clamp (m_rng p + clamp (rng - m_rng p) (- 10) 10) 0 100)"
  by (simp add: smooth_def)

lemma smoothed_near:
  assumes "lo \<le> p" "p \<le> hi" "0 \<le> d"
  shows "\<bar>clamp (p + clamp (v - p) (- d) d) lo hi - p\<bar> \<le> d"
proof -
  have "\<bar>clamp (p + clamp (v - p) (- d) d) lo hi - p\<bar> \<le> \<bar>(p + clamp (v - p) (- d) d) - p\<bar>"
    using assms(1,2) by (rule clamp_near)
  also have "\<dots> \<le> d" using assms(3) by (rule clamp_delta)
  finally show ?thesis .
qed

lemma near_trans: "\<bar>(a::int) - p\<bar> \<le> \<bar>b - p\<bar> \<Longrightarrow> \<bar>b - p\<bar> \<le> d \<Longrightarrow> \<bar>a - p\<bar> \<le> d"
  by linarith

lemma generate_move_smooth:
  assumes g: "generate_move (envelope_of pu) pu cues moves (Some p) rnd = (m, r')"
    and wb: "within_bounds (envelope_of pu) cues p"
    and lst: "moves \<noteq> [] \<longrightarrow> last moves = p"
  shows "smooth_step p m"
proof -
  let ?env = "envelope_of pu"
  have v: "valid_env ?env" by (rule valid_envelope_of)
  from g obtain base_sp0 dp0 rng0 duration0 r1 dp1 rng1 o1 o2 r2 dp2 rng2 dpo rngo dur r3 sp sp3 dp3 rng3 sp4 where
    z: "zone_cues cues dp0 rng0 r1 = ((dp1, rng1, o1, o2), r2)"
    and c: "coming_cue cues (dp1, rng1, o1, o2) duration0 r2 = (((dp2, rng2, dpo, rngo), dur), r3)"
    and e: "enforce_envelope ?env pu dpo rngo (smooth (Some p) (sp, dp2, rng2)) = (sp3, dp3, rng3)"
    and h: "cadence_hold ?env moves sp3 r3 = (sp4, r')"
    and m: "m = \<lparr>m_sp = sp4, m_dp = dp3, m_rng = rng3, m_duration = dur\<rparr>"
    by (rule generate_move_cases)
  have fl: "dpo = overridden cues" "rngo = overridden cues"
    using generate_move_flags[OF z c] by simp_all
  define s where "s = clamp (m_sp p + clamp (sp - m_sp p) (- 6) 6) 1 100"
  define dd where "dd = clamp (m_dp p + clamp (dp2 - m_dp p) (- 10) 10) 0 100"
  define gg where "gg = clamp (m_rng p + clamp (rng2 - m_rng p) (- 10) 10) 0 100"
  have sm: "smooth (Some p) (sp, dp2, rng2) = (s, dd, gg)" by (simp add: smooth_Some s_def dd_def gg_def)
  have psp: "fst (env_sp ?env) \<le> m_sp p" "m_sp p \<le> snd (env_sp ?env)"
    using wb by (simp_all add: within_bounds_def)
  have psp100: "1 \<le> m_sp p" "m_sp p \<le> 100" using psp v by (simp_all add: valid_env_def)
  have pdp100: "0 \<le> m_dp p" "m_dp p \<le> 100"
    using wb v by (auto simp: within_bounds_def valid_env_def split: if_splits)
  have prng100: "0 \<le> m_rng p" "m_rng p \<le> 100"
    using wb v by (auto simp: within_bounds_def valid_env_def split: if_splits)
  have s6: "\<bar>s - m_sp p\<bar> \<le> 6" unfolding s_def using psp100 by (intro smoothed_near) simp_all
  have d10: "\<bar>dd - m_dp p\<bar> \<le> 10" unfolding dd_def using pdp100 by (intro smoothed_near) simp_all
  have g10: "\<bar>gg - m_rng p\<bar> \<le> 10" unfolding gg_def using prng100 by (intro smoothed_near) simp_all
  have sp3: "sp3 = (if pu = ''RECOVERY'' then min (clamp s (fst (env_sp ?env)) (snd (env_sp ?env))) 15
      else clamp s (fst (env_sp ?env)) (snd (env_sp ?env)))"
    and dp3: "dp3 = (if dpo then clamp dd 0 100 else clamp dd (fst (env_dp ?env)) (snd (env_dp ?env)))"
    and rng3: "rng3 = (if rngo then clamp gg 0 100 else clamp gg (fst (env_rng ?env)) (snd (env_rng ?env)))"
    using e unfolding sm enforce_envelope_eq by simp_all
  have cs: "\<bar>clamp s (fst (env_sp ?env)) (snd (env_sp ?env)) - m_sp p\<bar> \<le> 6"
    using clamp_near[OF psp, of s] s6 by (rule near_trans)
  have cle: "clamp s (fst (env_sp ?env)) (snd (env_sp ?env)) \<le> snd (env_sp ?env)"
    using clamp_range[of "fst (env_sp ?env)" "snd (env_sp ?env)" s] v by (simp add: valid_env_def)
  have sp3_6: "\<bar>sp3 - m_sp p\<bar> \<le> 6"
  proof (cases "pu = ''RECOVERY''")
    case True
    then have "clamp s (fst (env_sp ?env)) (snd (env_sp ?env)) \<le> 15"
      using cle recovery_speed_bounds[OF True] by linarith
    then show ?thesis using cs True sp3 by simp
  next
    case False
    then show ?thesis using cs sp3 by simp
  qed
  have dp3_10: "\<bar>dp3 - m_dp p\<bar> \<le> 10"
  proof (cases "overridden cues")
    case True
    then have "dp3 = clamp dd 0 100" using dp3 fl by simp
    then show ?thesis using clamp_near[OF pdp100, of dd] d10 by simp
  next
    case False
    then have pd: "fst (env_dp ?env) \<le> m_dp p" "m_dp p \<le> snd (env_dp ?env)"
      using wb by (simp_all add: within_bounds_def)
    from False have "dp3 = clamp dd (fst (env_dp ?env)) (snd (env_dp ?env))" using dp3 fl by simp
    then show ?thesis using clamp_near[OF pd, of dd] d10 by simp
  qed
  have rng3_10: "\<bar>rng3 - m_rng p\<bar> \<le> 10"
  proof (cases "overridden cues")
    case True
    then have "rng3 = clamp gg 0 100" using rng3 fl by simp
    then show ?thesis using clamp_near[OF prng100, of gg] g10 by simp
  next
    case False
    then have pd: "fst (env_rng ?env) \<le> m_rng p" "m_rng p \<le> snd (env_rng ?env)"
      using wb by (simp_all add: within_bounds_def)
    from False have "rng3 = clamp gg (fst (env_rng ?env)) (snd (env_rng ?env))" using rng3 fl by simp
    then show ?thesis using clamp_near[OF pd, of gg] g10 by simp
  qed
  have sp4_6: "\<bar>sp4 - m_sp p\<bar> \<le> 6"
    using cadence_hold_cases[OF h]
  proof
    assume "sp4 = sp3" then show ?thesis using sp3_6 by simp
  next
    assume "moves \<noteq> [] \<and> (\<exists>j. - 5 \<le> j \<and> j \<le> 5 \<and>
            sp4 = clamp (m_sp (last moves) + j) (fst (env_sp ?env)) (snd (env_sp ?env)))"
    then obtain j where j: "- 5 \<le> j" "j \<le> 5"
      and s4: "sp4 = clamp (m_sp p + j) (fst (env_sp ?env)) (snd (env_sp ?env))"
      using lst by auto
    have "\<bar>sp4 - m_sp p\<bar> \<le> \<bar>(m_sp p + j) - m_sp p\<bar>" unfolding s4 using psp by (rule clamp_near)
    then show ?thesis using j by simp
  qed
  show ?thesis unfolding smooth_step_def m using sp4_6 dp3_10 rng3_10 by simp
qed

lemma successively_snoc:
  "successively P (xs @ [x]) \<longleftrightarrow> successively P xs \<and> (xs = [] \<or> P (last xs) x)"
  by (simp add: successively_append_iff)

lemma generate_loop_invariant:
  assumes "generate_loop (envelope_of pu) pu cues n moves lm rnd = (moves', lm', r')"
    and "\<forall>m\<in>set moves. within_bounds (envelope_of pu) cues m"
    and "successively smooth_step moves"
    and "moves \<noteq> [] \<longrightarrow> lm = Some (last moves)"
  shows "length moves' = length moves + n
       \<and> (\<forall>m\<in>set moves'. within_bounds (envelope_of pu) cues m)
       \<and> successively smooth_step moves'
       \<and> (moves' \<noteq> [] \<longrightarrow> lm' = Some (last moves'))
       \<and> take (length moves) moves' = moves"
  using assms
proof (induction n arbitrary: moves lm rnd)
  case 0
  then show ?case by simp
next
  case (Suc n)
  obtain m r1 where g: "generate_move (envelope_of pu) pu cues moves lm rnd = (m, r1)"
    by (cases "generate_move (envelope_of pu) pu cues moves lm rnd")
  have rec: "generate_loop (envelope_of pu) pu cues n (moves @ [m]) (Some m) r1 = (moves', lm', r')"
    using Suc.prems(1) g by simp
  have wm: "within_bounds (envelope_of pu) cues m" using g by (rule generate_move_within_bounds)
  have all: "\<forall>x\<in>set (moves @ [m]). within_bounds (envelope_of pu) cues x"
    using Suc.prems(2) wm by simp
  have step: "moves = [] \<or> smooth_step (last moves) m"
  proof (cases "moves = []")
    case True then show ?thesis by simp
  next
    case False
    then have lm: "lm = Some (last moves)" using Suc.prems(4) by simp
    have "within_bounds (envelope_of pu) cues (last moves)" using Suc.prems(2) False by simp
    then have "smooth_step (last moves) m"
      using generate_move_smooth[of pu cues moves "last moves" rnd m r1] g lm by simp
    then show ?thesis by simp
  qed
  have succ: "successively smooth_step (moves @ [m])"
    unfolding successively_snoc using Suc.prems(3) step by simp
  have lst: "moves @ [m] \<noteq> [] \<longrightarrow> Some m = Some (last (moves @ [m]))" by simp
  from Suc.IH[OF rec all succ lst]
  have ih: "length moves' = length (moves @ [m]) + n"
       "\<forall>m\<in>set moves'. within_bounds (envelope_of pu) cues m"
       "successively smooth_step moves'"
       "moves' \<noteq> [] \<longrightarrow> lm' = Some (last moves')"
       "take (length (moves @ [m])) moves' = moves @ [m]" by simp_all
  have "take (length moves) moves' = take (length moves) (take (length (moves @ [m])) moves')"
    by (simp add: min_def)
  also have "\<dots> = moves" unfolding ih(5) by simp
  finally have tk: "take (length moves) moves' = moves" .
  show ?case using ih(1-4) tk by simp
qed

lemma successively_nth:
  "successively P xs \<Longrightarrow> Suc i < length xs \<Longrightarrow> P (xs ! i) (xs ! Suc i)"
proof (induction xs arbitrary: i)
  case Nil
  then show ?case by simp
next
  case (Cons x xs)
  show ?case
  proof (cases i)
    case 0
    then show ?thesis using Cons.prems by (cases xs) (auto simp: successively_Cons)
  next
    case (Suc j)
    then show ?thesis using Cons.prems Cons.IH[of j] by (auto simp: successively_Cons)
  qed
qed

lemma draw_base_zone:
  "valid_env env \<Longrightarrow> draw_base env rnd = ((b, d, g, du), r') \<Longrightarrow>
     fst (env_dp env) \<le> d \<and> d \<le> snd (env_dp env) \<and> fst (env_rng env) \<le> g \<and> g \<le> snd (env_rng env)"
  unfolding draw_base_def Let_def valid_env_def
  by (auto split: prod.splits dest: randint_range)

lemma randint_rangeD: "randint a b rnd = (v, r') \<Longrightarrow> a \<le> b \<Longrightarrow> a \<le> v \<and> v \<le> b"
  using randint_range by blast

lemma announced_zone_valid:
  assumes "valid_env env"
  shows "0 \<le> fst (fst (announced_zone env cues)) \<and> fst (fst (announced_zone env cues)) \<le> snd (fst (announced_zone env cues))
       \<and> snd (fst (announced_zone env cues)) \<le> 100
       \<and> 0 \<le> fst (snd (announced_zone env cues)) \<and> fst (snd (announced_zone env cues)) \<le> snd (snd (announced_zone env cues))
       \<and> snd (snd (announced_zone env cues)) \<le> 100"
  using assms by (simp add: announced_zone_def valid_env_def)

lemma announced_zone_plain:
  "\<not> overridden cues \<Longrightarrow> announced_zone env cues = (env_dp env, env_rng env)"
  by (auto simp: announced_zone_def overridden_def)

lemma zone_coming_in_zone:
  assumes v: "valid_env env"
    and b: "fst (env_dp env) \<le> dp0 \<and> dp0 \<le> snd (env_dp env) \<and> fst (env_rng env) \<le> rng0 \<and> rng0 \<le> snd (env_rng env)"
    and z: "zone_cues cues dp0 rng0 r1 = ((dp1, rng1, o1, o2), r2)"
    and c: "coming_cue cues (dp1, rng1, o1, o2) duration0 r2 = (((dp2, rng2, dpo, rngo), dur), r3)"
  shows "in_zone env cues dp2 rng2"
proof (cases "coming cues")
  case False
  then have eq: "dp2 = dp1" "rng2 = rng1" using c by (simp_all add: coming_cue_def)
  show ?thesis unfolding eq using z b False
    unfolding zone_cues_def in_zone_def announced_zone_def Let_def
    by (auto split: if_splits prod.splits dest!: randint_rangeD)
next
  case True
  from zone_cues_flags[OF z] have o1: "o1 = (\<not> (tip_only cues \<and> base_only cues) \<and> (tip_only cues \<or> base_only cues \<or> full cues))"
    and o2: "o2 = o1" by simp_all
  show ?thesis
  proof (cases o1)
    case False
    with True c o2 have "\<exists>ra rb rc rd. randint 45 55 ra = (dp2, rb) \<and> randint 70 100 rc = (rng2, rd)"
      unfolding coming_cue_def Let_def by (auto split: prod.splits)
    then have "45 \<le> dp2 \<and> dp2 \<le> 55 \<and> 70 \<le> rng2 \<and> rng2 \<le> 100"
      by (auto dest!: randint_rangeD)
    then show ?thesis using True False o1 unfolding in_zone_def announced_zone_def by auto
  next
    case o1t: True
    with True c o2 have eq: "dp2 = dp1" "rng2 = clamp rng1 40 90"
      unfolding coming_cue_def Let_def by (auto split: prod.splits)
    have r: "40 \<le> rng2 \<and> rng2 \<le> 90" unfolding eq by (intro clamp_range) simp
    have d: "fst (fst (announced_zone env cues)) \<le> dp1 \<and> dp1 \<le> snd (fst (announced_zone env cues))"
      using z o1t o1 unfolding zone_cues_def announced_zone_def Let_def
      by (auto split: if_splits prod.splits dest!: randint_rangeD)
    have a: "snd (announced_zone env cues) = (40, 90)"
      using True o1t o1 unfolding announced_zone_def by auto
    show ?thesis unfolding in_zone_def a eq(1) using d r by simp
  qed
qed

lemma smoothed_between:
  assumes "lo \<le> p" "p \<le> hi" "lo \<le> v" "v \<le> hi" "0 \<le> lo" "hi \<le> 100" "0 \<le> d"
  shows "lo \<le> clamp (p + clamp (v - p) (- d) d) 0 100 \<and> clamp (p + clamp (v - p) (- d) d) 0 100 \<le> hi"
  using assms by (auto simp: clamp_def)

lemma clamp_id: "lo \<le> v \<Longrightarrow> v \<le> hi \<Longrightarrow> clamp v lo hi = v"
  by (simp add: clamp_def)

lemma generate_move_in_zone:
  assumes g: "generate_move (envelope_of pu) pu cues moves lm rnd = (m, r')"
    and lm: "lm = None \<or> (\<exists>p. lm = Some p \<and> in_zone (envelope_of pu) cues (m_dp p) (m_rng p))"
  shows "in_zone (envelope_of pu) cues (m_dp m) (m_rng m)"
proof -
  let ?env = "envelope_of pu"
  let ?z = "announced_zone ?env cues"
  have v: "valid_env ?env" by (rule valid_envelope_of)
  from g obtain base_sp0 dp0 rng0 duration0 r1 dp1 rng1 o1 o2 r2 dp2 rng2 dpo rngo dur r3 sp sp3 dp3 rng3 sp4 where
    d: "draw_base ?env rnd = ((base_sp0, dp0, rng0, duration0), r1)"
    and z: "zone_cues cues dp0 rng0 r1 = ((dp1, rng1, o1, o2), r2)"
    and c: "coming_cue cues (dp1, rng1, o1, o2) duration0 r2 = (((dp2, rng2, dpo, rngo), dur), r3)"
    and e: "enforce_envelope ?env pu dpo rngo (smooth lm (sp, dp2, rng2)) = (sp3, dp3, rng3)"
    and m: "m = \<lparr>m_sp = sp4, m_dp = dp3, m_rng = rng3, m_duration = dur\<rparr>"
    by (rule generate_move_cases)
  have fl: "dpo = overridden cues" "rngo = overridden cues"
    using generate_move_flags[OF z c] by simp_all
  have iz: "in_zone ?env cues dp2 rng2"
    using zone_coming_in_zone[OF v draw_base_zone[OF v d] z c] .
  have zv: "0 \<le> fst (fst ?z)" "fst (fst ?z) \<le> snd (fst ?z)" "snd (fst ?z) \<le> 100"
       "0 \<le> fst (snd ?z)" "fst (snd ?z) \<le> snd (snd ?z)" "snd (snd ?z) \<le> 100"
    using announced_zone_valid[OF v, of cues] by simp_all
  obtain s dd gg where sm: "smooth lm (sp, dp2, rng2) = (s, dd, gg)" by (cases "smooth lm (sp, dp2, rng2)")
  have sz: "in_zone ?env cues dd gg"
  proof (cases lm)
    case None
    then have "dd = dp2" "gg = rng2" using sm by (simp_all add: smooth_def)
    then show ?thesis using iz by simp
  next
    case (Some p)
    then have pz: "in_zone ?env cues (m_dp p) (m_rng p)" using lm by auto
    have dd: "dd = clamp (m_dp p + clamp (dp2 - m_dp p) (- 10) 10) 0 100"
      and gg: "gg = clamp (m_rng p + clamp (rng2 - m_rng p) (- 10) 10) 0 100"
      using sm Some by (simp_all add: smooth_Some)
    have a: "fst (fst ?z) \<le> dd \<and> dd \<le> snd (fst ?z)"
      unfolding dd using pz iz zv by (intro smoothed_between) (simp_all add: in_zone_def)
    have b: "fst (snd ?z) \<le> gg \<and> gg \<le> snd (snd ?z)"
      unfolding gg using pz iz zv by (intro smoothed_between) (simp_all add: in_zone_def)
    show ?thesis unfolding in_zone_def using a b by simp
  qed
  have dp3: "dp3 = (if dpo then clamp dd 0 100 else clamp dd (fst (env_dp ?env)) (snd (env_dp ?env)))"
    and rng3: "rng3 = (if rngo then clamp gg 0 100 else clamp gg (fst (env_rng ?env)) (snd (env_rng ?env)))"
    using e unfolding sm enforce_envelope_eq by simp_all
  have "dp3 = dd \<and> rng3 = gg"
  proof (cases "overridden cues")
    case True
    have "clamp dd 0 100 = dd" using sz zv by (intro clamp_id) (simp_all add: in_zone_def)
    moreover have "clamp gg 0 100 = gg" using sz zv by (intro clamp_id) (simp_all add: in_zone_def)
    ultimately show ?thesis using dp3 rng3 fl True by simp
  next
    case False
    have az: "?z = (env_dp ?env, env_rng ?env)" using False by (rule announced_zone_plain)
    have "clamp dd (fst (env_dp ?env)) (snd (env_dp ?env)) = dd"
      using sz by (intro clamp_id) (simp_all add: in_zone_def az)
    moreover have "clamp gg (fst (env_rng ?env)) (snd (env_rng ?env)) = gg"
      using sz by (intro clamp_id) (simp_all add: in_zone_def az)
    ultimately show ?thesis using dp3 rng3 fl False by simp
  qed
  then show ?thesis using sz m by simp
qed

lemma generate_loop_in_zone:
  assumes "generate_loop (envelope_of pu) pu cues n moves lm rnd = (moves', lm', r')"
    and "lm = None \<or> (\<exists>p. lm = Some p \<and> in_zone (envelope_of pu) cues (m_dp p) (m_rng p))"
    and "\<forall>m\<in>set moves. in_zone (envelope_of pu) cues (m_dp m) (m_rng m)"
  shows "\<forall>m\<in>set moves'. in_zone (envelope_of pu) cues (m_dp m) (m_rng m)"
  using assms
proof (induction n arbitrary: moves lm rnd)
  case 0
  then show ?case by simp
next
  case (Suc n)
  obtain m r1 where g: "generate_move (envelope_of pu) pu cues moves lm rnd = (m, r1)"
    by (cases "generate_move (envelope_of pu) pu cues moves lm rnd")
  have rec: "generate_loop (envelope_of pu) pu cues n (moves @ [m]) (Some m) r1 = (moves', lm', r')"
    using Suc.prems(1) g by simp
  have mz: "in_zone (envelope_of pu) cues (m_dp m) (m_rng m)"
    using generate_move_in_zone[OF g Suc.prems(2)] .
  have a: "Some m = None \<or> (\<exists>p. Some m = Some p \<and> in_zone (envelope_of pu) cues (m_dp p) (m_rng p))"
    using mz by simp
  have b: "\<forall>x\<in>set (moves @ [m]). in_zone (envelope_of pu) cues (m_dp x) (m_rng x)"
    using Suc.prems(3) mz by simp
  show ?case using Suc.IH[OF rec a b] .
qed

lemma generate_moves_loop:
  assumes "generate_moves phase cues st rnd = (moves, st', rnd')"
  shows "\<exists>lm'. generate_loop (envelope_of (upper phase)) (upper phase) cues 10 []
            (if LAST_PHASE st \<noteq> Some (upper phase) then None else LAST_MOVE st) rnd = (moves, lm', rnd')"
  using assms unfolding generate_moves_def Let_def by (auto split: prod.splits if_splits)

lemma generate_loop_first:
  assumes "generate_loop (envelope_of pu) pu cues (Suc n) [] lm rnd = (moves', lm', r')"
  shows "moves' ! 0 = fst (generate_move (envelope_of pu) pu cues [] lm rnd)"
proof -
  obtain m r1 where g: "generate_move (envelope_of pu) pu cues [] lm rnd = (m, r1)"
    by (cases "generate_move (envelope_of pu) pu cues [] lm rnd")
  have rec: "generate_loop (envelope_of pu) pu cues n [m] (Some m) r1 = (moves', lm', r')"
    using assms g by simp
  have wm: "within_bounds (envelope_of pu) cues m" using g by (rule generate_move_within_bounds)
  have "take (length [m]) moves' = [m]"
    using generate_loop_invariant[OF rec] wm by simp
  then have "take 1 moves' = [m]" by simp
  then have "moves' ! 0 = m" by (metis nth_take nth_Cons_0 zero_less_one)
  then show ?thesis using g by simp
qed

lemma within_bounds_recovery:
  "within_bounds (envelope_of pu) cues m \<Longrightarrow> pu = ''RECOVERY'' \<Longrightarrow> m_sp m \<le> 15"
  using recovery_speed_bounds[of pu] by (simp add: within_bounds_def)

lemma generate_moveI:
  assumes "draw_base env rnd = ((base_sp0, dp0, rng0, duration0), r1)"
    and "zone_cues cues dp0 rng0 r1 = ((dp1, rng1, o1, o2), r2)"
    and "coming_cue cues (dp1, rng1, o1, o2) duration0 r2 = (((dp2, rng2, dpo, rngo), dur), r3)"
    and "enforce_envelope env pu dpo rngo
           (smooth lm (compute_sp_adjusted (scale_speed (fst (env_rng env)) (snd (env_rng env))
                (speed_cues cues (fst (env_sp env)) (snd (env_sp env)) base_sp0) rng2) dp2 rng2, dp2, rng2))
         = (sp3, dp3, rng3)"
    and "cadence_hold env moves sp3 r3 = (sp4, r4)"
  shows "generate_move env pu cues moves lm rnd
         = (\<lparr>m_sp = sp4, m_dp = dp3, m_rng = rng3, m_duration = dur\<rparr>, r4)"
  using assms by (simp add: generate_move_def)

lemma generate_moves_first:
  "fst (generate_moves phase cues st rnd) ! 0 =
     fst (generate_move (envelope_of (upper phase)) (upper phase) cues []
            (if LAST_PHASE st \<noteq> Some (upper phase) then None else LAST_MOVE st) rnd)"
proof -
  obtain moves st' rnd' where g: "generate_moves phase cues st rnd = (moves, st', rnd')"
    by (cases "generate_moves phase cues st rnd") auto
  obtain lm' where l: "generate_loop (envelope_of (upper phase)) (upper phase) cues 10 []
            (if LAST_PHASE st \<noteq> Some (upper phase) then None else LAST_MOVE st) rnd = (moves, lm', rnd')"
    using generate_moves_loop[OF g] by blast
  have ten: "(10::nat) = Suc 9" by simp
  have "generate_loop (envelope_of (upper phase)) (upper phase) cues (Suc 9) []
            (if LAST_PHASE st \<noteq> Some (upper phase) then None else LAST_MOVE st) rnd = (moves, lm', rnd')"
    using l unfolding ten .
  from generate_loop_first[OF this] show ?thesis using g by simp
qed

lemma upper_WARM_UP: "upper ''WARM-UP'' = ''WARM-UP''" by code_simp

lemma upper_recovery: "upper ''recovery'' = ''RECOVERY''" by code_simp

lemma envelope_of_WARM_UP: "envelope_of ''WARM-UP'' = WARM_UP" by code_simp

text \<open>A warm-up call without cues whose draws are all at the upper end.\<close>

lemma warm_high_draw: "draw_base WARM_UP (100 # 100 # 100 # 100 # rnd) = ((35, 60, 45, 3000), rnd)"
  by (simp add: draw_base_def WARM_UP_def)

lemma warm_high_zone: "zone_cues no_cues 60 45 rnd = ((60, 45, False, False), rnd)"
  by (simp add: zone_cues_def no_cues_def)

lemma warm_high_coming:
  "coming_cue no_cues (60, 45, False, False) 3000 rnd = (((60, 45, False, False), 3000), rnd)"
  by (simp add: coming_cue_def no_cues_def)

lemma warm_high_first_enforce:
  "enforce_envelope WARM_UP ''WARM-UP'' False False
     (smooth None (compute_sp_adjusted (scale_speed (fst (env_rng WARM_UP)) (snd (env_rng WARM_UP))
          (speed_cues no_cues (fst (env_sp WARM_UP)) (snd (env_sp WARM_UP)) 35) 45) 60 45, 60, 45))
   = (35, 60, 45)"
  by code_simp

lemma warm_high_next_enforce:
  "enforce_envelope WARM_UP ''WARM-UP'' False False
     (smooth (Some warm_high) (compute_sp_adjusted (scale_speed (fst (env_rng WARM_UP)) (snd (env_rng WARM_UP))
          (speed_cues no_cues (fst (env_sp WARM_UP)) (snd (env_sp WARM_UP)) 35) 45) 60 45, 60, 45))
   = (35, 60, 45)"
  by code_simp

lemma warm_high_first_move:
  "generate_move WARM_UP ''WARM-UP'' no_cues [] None (100 # 100 # 100 # 100 # rnd) = (warm_high, rnd)"
  unfolding warm_high_def
  by (rule generate_moveI[OF warm_high_draw warm_high_zone warm_high_coming warm_high_first_enforce])
     (simp add: cadence_hold_def)

lemma warm_high_next_move:
  assumes "moves \<noteq> []"
  shows "generate_move WARM_UP ''WARM-UP'' no_cues moves (Some warm_high)
           (100 # 100 # 100 # 100 # 100 # rnd) = (warm_high, rnd)"
proof -
  have h: "cadence_hold WARM_UP moves 35 (100 # rnd) = (35, rnd)"
    using assms by (simp add: cadence_hold_def)
  show ?thesis
    using generate_moveI[OF warm_high_draw warm_high_zone warm_high_coming warm_high_next_enforce h]
    by (simp add: warm_high_def)
qed

lemma warm_high_loop:
  "moves \<noteq> [] \<Longrightarrow>
   generate_loop WARM_UP ''WARM-UP'' no_cues n moves (Some warm_high) (replicate (5 * n) 100 @ rnd)
     = (moves @ replicate n warm_high, Some warm_high, rnd)"
proof (induction n arbitrary: moves)
  case 0
  then show ?case by simp
next
  case (Suc n)
  have r: "replicate (5 * Suc n) (100::int) @ rnd
           = 100 # 100 # 100 # 100 # 100 # (replicate (5 * n) 100 @ rnd)"
    by (simp add: replicate_add[symmetric] eval_nat_numeral)
  have ne: "moves @ [warm_high] \<noteq> []" by simp
  show ?case
    unfolding r using warm_high_next_move[OF Suc.prems] Suc.IH[OF ne]
    by (simp add: replicate_app_Cons_same)
qed

lemma warm_high_call:
  "generate_moves ''WARM-UP'' no_cues initial_state (replicate 49 100)
     = (replicate 10 warm_high, \<lparr>LAST_MOVE = Some warm_high, LAST_PHASE = Some ''WARM-UP''\<rparr>, [])"
proof -
  have r: "replicate 49 (100::int) = 100 # 100 # 100 # 100 # (replicate (5 * 9) 100 @ [])"
    by (simp add: eval_nat_numeral)
  have l: "generate_loop WARM_UP ''WARM-UP'' no_cues 10 [] None (replicate 49 100)
           = (replicate 10 warm_high, Some warm_high, [])"
    unfolding r using warm_high_first_move[of "replicate (5 * 9) 100 @ []"]
      warm_high_loop[of "[warm_high]" 9 "[]"]
    by (simp add: eval_nat_numeral)
  show ?thesis
    by (simp add: generate_moves_def upper_WARM_UP envelope_of_WARM_UP initial_state_def l)
qed

lemma generate_moves_invariant:
  assumes g: "generate_moves phase cues st rnd = (moves, st', rnd')"
  shows "length moves = 10"
    and "\<forall>m\<in>set moves. within_bounds (envelope_of (upper phase)) cues m"
    and "successively smooth_step moves"
proof -
  let ?pu = "upper phase"
  let ?lm = "if LAST_PHASE st \<noteq> Some ?pu then None else LAST_MOVE st"
  obtain lm' where l: "generate_loop (envelope_of ?pu) ?pu cues 10 [] ?lm rnd = (moves, lm', rnd')"
    using generate_moves_loop[OF g] by blast
  have inv: "length moves = length ([]::Move list) + 10
       \<and> (\<forall>m\<in>set moves. within_bounds (envelope_of ?pu) cues m)
       \<and> successively smooth_step moves
       \<and> (moves \<noteq> [] \<longrightarrow> lm' = Some (last moves))
       \<and> take (length ([]::Move list)) moves = []"
    by (rule generate_loop_invariant[OF l]) simp_all
  show "length moves = 10" using inv by simp
  show "\<forall>m\<in>set moves. within_bounds (envelope_of ?pu) cues m" using inv by simp
  show "successively smooth_step moves" using inv by simp
qed

lemma generate_moves_fresh_in_zone:
  assumes g: "generate_moves phase cues st rnd = (moves, st', rnd')"
    and f: "LAST_PHASE st \<noteq> Some (upper phase) \<or> LAST_MOVE st = None"
  shows "\<forall>m\<in>set moves. in_zone (envelope_of (upper phase)) cues (m_dp m) (m_rng m)"
proof -
  let ?pu = "upper phase"
  let ?lm = "if LAST_PHASE st \<noteq> Some ?pu then None else LAST_MOVE st"
  obtain lm' where l: "generate_loop (envelope_of ?pu) ?pu cues 10 [] ?lm rnd = (moves, lm', rnd')"
    using generate_moves_loop[OF g] by blast
  have n: "?lm = None" using f by auto
  show ?thesis by (rule generate_loop_in_zone[OF l]) (simp_all add: n)
qed

lemma generate_moves_first_smooth:
  assumes g: "generate_moves phase cues st rnd = (moves, st', rnd')"
    and ph: "LAST_PHASE st = Some (upper phase)" and lm: "LAST_MOVE st = Some p"
    and wb: "within_bounds (envelope_of (upper phase)) cues p"
  shows "smooth_step p (moves ! 0)"
proof -
  let ?pu = "upper phase"
  have f: "moves ! 0 = fst (generate_move (envelope_of ?pu) ?pu cues [] (Some p) rnd)"
    using generate_moves_first[of phase cues st rnd] g ph lm by simp
  obtain m r where gm: "generate_move (envelope_of ?pu) ?pu cues [] (Some p) rnd = (m, r)"
    by (cases "generate_move (envelope_of ?pu) ?pu cues [] (Some p) rnd")
  have "smooth_step p m" using generate_move_smooth[OF gm wb] by simp
  then show ?thesis using f gm by simp
qed

lemma generate_moves_phase_change:
  "LAST_PHASE st \<noteq> Some (upper phase) \<Longrightarrow>
   generate_moves phase cues (st\<lparr>LAST_MOVE := q\<rparr>) rnd = generate_moves phase cues st rnd"
  by (simp add: generate_moves_def)

text \<open>The first move of a warm-up call with the tip cue, after the call above, the draws
  exhausted.\<close>

lemma tip_draw: "draw_base WARM_UP [] = ((15, 40, 25, 3000), [])"
  by (simp add: draw_base_def WARM_UP_def)

lemma tip_zone: "zone_cues tip_cue 40 25 [] = ((85, 10, True, True), [])"
  by (simp add: zone_cues_def tip_cue_def no_cues_def)

lemma tip_coming: "coming_cue tip_cue (85, 10, True, True) 3000 [] = (((85, 10, True, True), 3000), [])"
  by (simp add: coming_cue_def tip_cue_def no_cues_def)

lemma tip_enforce:
  "enforce_envelope WARM_UP ''WARM-UP'' True True
     (smooth (Some warm_high) (compute_sp_adjusted (scale_speed (fst (env_rng WARM_UP)) (snd (env_rng WARM_UP))
          (speed_cues tip_cue (fst (env_sp WARM_UP)) (snd (env_sp WARM_UP)) 15) 10) 85 10, 85, 10))
   = (29, 70, 35)"
  by code_simp

lemma tip_hold: "cadence_hold WARM_UP [] 29 [] = (29, [])"
  by (simp add: cadence_hold_def)

lemma tip_after_warm_high:
  "fst (generate_moves ''WARM-UP'' tip_cue \<lparr>LAST_MOVE = Some warm_high, LAST_PHASE = Some ''WARM-UP''\<rparr> []) ! 0
     = \<lparr>m_sp = 29, m_dp = 70, m_rng = 35, m_duration = 3000\<rparr>"
  unfolding generate_moves_first upper_WARM_UP envelope_of_WARM_UP
  using generate_moveI[OF tip_draw tip_zone tip_coming tip_enforce tip_hold] by simp

lemma tip_announced: "announced_zone (envelope_of (upper ''WARM-UP'')) tip_cue = ((85, 95), (10, 20))"
  by (simp add: announced_zone_def tip_cue_def no_cues_def)

text \<open>
  The announced override intervals do not hold for every move: a warm-up call without cues
  (draws at the upper end) leaves depth 60 and range 45 as the last move; the next warm-up
  call, with the tip cue, smooths its first move against it and returns depth 70 and range
  35, outside the announced 85..95 and 10..20, and the depth outside the envelope's 40..60
  too.
\<close>

theorem override_bounds_counterexample:
  "generate_moves ''WARM-UP'' no_cues initial_state (replicate 49 100)
     = (replicate 10 warm_high, \<lparr>LAST_MOVE = Some warm_high, LAST_PHASE = Some ''WARM-UP''\<rparr>, [])
   \<and> fst (generate_moves ''WARM-UP'' tip_cue \<lparr>LAST_MOVE = Some warm_high, LAST_PHASE = Some ''WARM-UP''\<rparr> []) ! 0
       = \<lparr>m_sp = 29, m_dp = 70, m_rng = 35, m_duration = 3000\<rparr>
   \<and> announced_zone (envelope_of (upper ''WARM-UP'')) tip_cue = ((85, 95), (10, 20))
   \<and> env_dp (envelope_of (upper ''WARM-UP'')) = (40, 60)
   \<and> \<not> within_announced (envelope_of (upper ''WARM-UP'')) tip_cue
         (fst (generate_moves ''WARM-UP'' tip_cue \<lparr>LAST_MOVE = Some warm_high, LAST_PHASE = Some ''WARM-UP''\<rparr> []) ! 0)"
proof -
  have e: "env_dp (envelope_of (upper ''WARM-UP'')) = (40, 60)"
    by (simp add: upper_WARM_UP envelope_of_WARM_UP WARM_UP_def)
  have n: "\<not> within_announced (envelope_of (upper ''WARM-UP'')) tip_cue
         (fst (generate_moves ''WARM-UP'' tip_cue \<lparr>LAST_MOVE = Some warm_high, LAST_PHASE = Some ''WARM-UP''\<rparr> []) ! 0)"
    unfolding tip_after_warm_high within_announced_def in_zone_def tip_announced by simp
  show ?thesis using warm_high_call tip_after_warm_high tip_announced e n by blast
qed

text \<open>
  Claim C2, amended. Every call returns ten moves. Each has its speed inside the speed
  interval of the phase envelope, hence at most 15 in the recovery phase; depth and range
  inside the envelope when no cue overrides them and inside 0..100 when one does; the
  duration inside the envelope or, with the coming cue, inside 3500..7000. When the call
  starts without a previous move (first call, or the phase changed), depth and range are
  also inside the announced override intervals.
\<close>

theorem generated_moves_bounds:
  assumes g: "generate_moves phase cues st rnd = (moves, st', rnd')"
  shows "length moves = 10
       \<and> (\<forall>m\<in>set moves. within_bounds (envelope_of (upper phase)) cues m
                        \<and> (upper phase = ''RECOVERY'' \<longrightarrow> m_sp m \<le> 15))
       \<and> (LAST_PHASE st \<noteq> Some (upper phase) \<or> LAST_MOVE st = None \<longrightarrow>
            (\<forall>m\<in>set moves. within_announced (envelope_of (upper phase)) cues m))"
proof -
  let ?pu = "upper phase"
  have len: "length moves = 10" and wb: "\<forall>m\<in>set moves. within_bounds (envelope_of ?pu) cues m"
    using generate_moves_invariant[OF g] by simp_all
  have rec: "\<forall>m\<in>set moves. within_bounds (envelope_of ?pu) cues m \<and> (?pu = ''RECOVERY'' \<longrightarrow> m_sp m \<le> 15)"
    using wb within_bounds_recovery by blast
  have fresh: "LAST_PHASE st \<noteq> Some ?pu \<or> LAST_MOVE st = None \<longrightarrow>
            (\<forall>m\<in>set moves. within_announced (envelope_of ?pu) cues m)"
  proof
    assume f: "LAST_PHASE st \<noteq> Some ?pu \<or> LAST_MOVE st = None"
    show "\<forall>m\<in>set moves. within_announced (envelope_of ?pu) cues m"
      using generate_moves_fresh_in_zone[OF g f] wb
      by (simp add: within_announced_def within_bounds_def)
  qed
  show ?thesis using len rec fresh by blast
qed

lemma rec_draw: "draw_base RECOVERY [] = ((5, 35, 20, 3500), [])"
  by (simp add: draw_base_def RECOVERY_def)

lemma rec_zone: "zone_cues tip_cue 35 20 [] = ((85, 10, True, True), [])"
  by (simp add: zone_cues_def tip_cue_def no_cues_def)

lemma rec_coming: "coming_cue tip_cue (85, 10, True, True) 3500 [] = (((85, 10, True, True), 3500), [])"
  by (simp add: coming_cue_def tip_cue_def no_cues_def)

lemma rec_enforce:
  "enforce_envelope RECOVERY ''RECOVERY'' True True
     (smooth None (compute_sp_adjusted (scale_speed (fst (env_rng RECOVERY)) (snd (env_rng RECOVERY))
          (speed_cues tip_cue (fst (env_sp RECOVERY)) (snd (env_sp RECOVERY)) 5) 10) 85 10, 85, 10))
   = (5, 85, 10)"
  by code_simp

lemma rec_hold: "cadence_hold RECOVERY [] 5 [] = (5, [])"
  by (simp add: cadence_hold_def)

lemma recovery_tip_first:
  "fst (generate_moves ''recovery'' tip_cue initial_state []) ! 0
     = \<lparr>m_sp = 5, m_dp = 85, m_rng = 10, m_duration = 3500\<rparr>"
  unfolding generate_moves_first upper_recovery envelope_of_RECOVERY
  using generate_moveI[OF rec_draw rec_zone rec_coming rec_enforce rec_hold]
  by (simp add: initial_state_def)

theorem generated_moves_bounds_witness:
  "generate_moves ''recovery'' tip_cue initial_state []
     = (fst (generate_moves ''recovery'' tip_cue initial_state []),
        fst (snd (generate_moves ''recovery'' tip_cue initial_state [])),
        snd (snd (generate_moves ''recovery'' tip_cue initial_state [])))
   \<and> upper ''recovery'' = ''RECOVERY''
   \<and> LAST_MOVE initial_state = None
   \<and> fst (generate_moves ''recovery'' tip_cue initial_state []) ! 0
       = \<lparr>m_sp = 5, m_dp = 85, m_rng = 10, m_duration = 3500\<rparr>
   \<and> length (fst (generate_moves ''recovery'' tip_cue initial_state [])) = 10
   \<and> fst (generate_moves ''recovery'' tip_cue initial_state []) ! 0
       \<in> set (fst (generate_moves ''recovery'' tip_cue initial_state []))
   \<and> within_bounds (envelope_of (upper ''recovery'')) tip_cue
        (fst (generate_moves ''recovery'' tip_cue initial_state []) ! 0)
   \<and> m_sp (fst (generate_moves ''recovery'' tip_cue initial_state []) ! 0) \<le> 15
   \<and> within_announced (envelope_of (upper ''recovery'')) tip_cue
        (fst (generate_moves ''recovery'' tip_cue initial_state []) ! 0)"
proof -
  let ?ms = "fst (generate_moves ''recovery'' tip_cue initial_state [])"
  have e: "generate_moves ''recovery'' tip_cue initial_state []
     = (?ms, fst (snd (generate_moves ''recovery'' tip_cue initial_state [])),
        snd (snd (generate_moves ''recovery'' tip_cue initial_state [])))"
    by simp
  have n: "LAST_MOVE initial_state = None" by (simp add: initial_state_def)
  note t = generated_moves_bounds [OF e]
  have len: "length ?ms = 10" using t by blast
  have mem: "?ms ! 0 \<in> set ?ms" using len by (intro nth_mem) simp
  have a: "within_bounds (envelope_of (upper ''recovery'')) tip_cue (?ms ! 0)
           \<and> m_sp (?ms ! 0) \<le> 15"
    using t mem upper_recovery by blast
  have b: "within_announced (envelope_of (upper ''recovery'')) tip_cue (?ms ! 0)"
    using t mem n by blast
  show ?thesis using e upper_recovery n recovery_tip_first len mem a b by blast
qed

text \<open>A warm-up call with the tip cue, from the initial state, the draws exhausted.\<close>

lemma tip_low_first_enforce:
  "enforce_envelope WARM_UP ''WARM-UP'' True True
     (smooth None (compute_sp_adjusted (scale_speed (fst (env_rng WARM_UP)) (snd (env_rng WARM_UP))
          (speed_cues tip_cue (fst (env_sp WARM_UP)) (snd (env_sp WARM_UP)) 15) 10) 85 10, 85, 10))
   = (15, 85, 10)"
  by code_simp

lemma tip_low_next_enforce:
  "enforce_envelope WARM_UP ''WARM-UP'' True True
     (smooth (Some tip_low) (compute_sp_adjusted (scale_speed (fst (env_rng WARM_UP)) (snd (env_rng WARM_UP))
          (speed_cues tip_cue (fst (env_sp WARM_UP)) (snd (env_sp WARM_UP)) 15) 10) 85 10, 85, 10))
   = (15, 85, 10)"
  by code_simp

lemma tip_low_first_move:
  "generate_move WARM_UP ''WARM-UP'' tip_cue [] None [] = (tip_low, [])"
  unfolding tip_low_def
  by (rule generate_moveI[OF tip_draw tip_zone tip_coming tip_low_first_enforce])
     (simp add: cadence_hold_def)

lemma tip_low_hold:
  assumes "moves \<noteq> []" and "last moves = tip_low"
  shows "cadence_hold WARM_UP moves 15 [] = (15, [])"
  using assms by (simp add: cadence_hold_def random_unit_def tip_low_def WARM_UP_def clamp_def)

lemma tip_low_next_move:
  assumes "moves \<noteq> []" and "last moves = tip_low"
  shows "generate_move WARM_UP ''WARM-UP'' tip_cue moves (Some tip_low) [] = (tip_low, [])"
  using generate_moveI[OF tip_draw tip_zone tip_coming tip_low_next_enforce tip_low_hold[OF assms]]
  by (simp add: tip_low_def)

lemma tip_low_loop:
  "moves \<noteq> [] \<Longrightarrow> last moves = tip_low \<Longrightarrow>
   generate_loop WARM_UP ''WARM-UP'' tip_cue n moves (Some tip_low) []
     = (moves @ replicate n tip_low, Some tip_low, [])"
proof (induction n arbitrary: moves)
  case 0
  then show ?case by simp
next
  case (Suc n)
  have ne: "moves @ [tip_low] \<noteq> []" and la: "last (moves @ [tip_low]) = tip_low" by simp_all
  show ?case
    using tip_low_next_move[OF Suc.prems] Suc.IH[OF ne la]
    by (simp add: replicate_app_Cons_same)
qed

lemma tip_low_call:
  "generate_moves ''WARM-UP'' tip_cue initial_state []
     = (replicate 10 tip_low, \<lparr>LAST_MOVE = Some tip_low, LAST_PHASE = Some ''WARM-UP''\<rparr>, [])"
proof -
  have l: "generate_loop WARM_UP ''WARM-UP'' tip_cue 10 [] None []
           = (replicate 10 tip_low, Some tip_low, [])"
    using tip_low_first_move tip_low_loop[of "[tip_low]" 9]
    by (simp add: eval_nat_numeral)
  show ?thesis
    by (simp add: generate_moves_def upper_WARM_UP envelope_of_WARM_UP initial_state_def l)
qed

text \<open>The first move of the next warm-up call, without cues, the draws exhausted.\<close>

lemma plain_zone: "zone_cues no_cues 40 25 [] = ((40, 25, False, False), [])"
  by (simp add: zone_cues_def no_cues_def)

lemma plain_coming:
  "coming_cue no_cues (40, 25, False, False) 3000 [] = (((40, 25, False, False), 3000), [])"
  by (simp add: coming_cue_def no_cues_def)

lemma plain_enforce:
  "enforce_envelope WARM_UP ''WARM-UP'' False False
     (smooth (Some tip_low) (compute_sp_adjusted (scale_speed (fst (env_rng WARM_UP)) (snd (env_rng WARM_UP))
          (speed_cues no_cues (fst (env_sp WARM_UP)) (snd (env_sp WARM_UP)) 15) 25) 40 25, 40, 25))
   = (15, 60, 25)"
  by code_simp

lemma plain_hold: "cadence_hold WARM_UP [] 15 [] = (15, [])"
  by (simp add: cadence_hold_def)

lemma plain_after_tip_low:
  "fst (generate_moves ''WARM-UP'' no_cues \<lparr>LAST_MOVE = Some tip_low, LAST_PHASE = Some ''WARM-UP''\<rparr> []) ! 0
     = \<lparr>m_sp = 15, m_dp = 60, m_rng = 25, m_duration = 3000\<rparr>"
  unfolding generate_moves_first upper_WARM_UP envelope_of_WARM_UP
  using generate_moveI[OF tip_draw plain_zone plain_coming plain_enforce plain_hold] by simp

text \<open>
  The bound does not hold between the last move of one call and the first move of the
  next call of the same phase: a warm-up call with the tip cue (draws exhausted) returns ten
  moves of depth 85 and range 10 and stores the last; the next warm-up call, without cues,
  draws depth 40 and range 25, smooths them to 75 and 20, and the envelope then clamps the
  depth to 60 and the range to 25: the first move differs from the stored one by 25 in
  depth and 15 in range.
\<close>

theorem cross_call_smoothing_counterexample:
  "generate_moves ''WARM-UP'' tip_cue initial_state []
     = (replicate 10 tip_low, \<lparr>LAST_MOVE = Some tip_low, LAST_PHASE = Some ''WARM-UP''\<rparr>, [])
   \<and> m_dp tip_low = 85 \<and> m_rng tip_low = 10
   \<and> fst (generate_moves ''WARM-UP'' no_cues \<lparr>LAST_MOVE = Some tip_low, LAST_PHASE = Some ''WARM-UP''\<rparr> []) ! 0
       = \<lparr>m_sp = 15, m_dp = 60, m_rng = 25, m_duration = 3000\<rparr>
   \<and> \<not> \<bar>m_dp (fst (generate_moves ''WARM-UP'' no_cues
                     \<lparr>LAST_MOVE = Some tip_low, LAST_PHASE = Some ''WARM-UP''\<rparr> []) ! 0)
          - m_dp tip_low\<bar> \<le> 10
   \<and> \<not> \<bar>m_rng (fst (generate_moves ''WARM-UP'' no_cues
                     \<lparr>LAST_MOVE = Some tip_low, LAST_PHASE = Some ''WARM-UP''\<rparr> []) ! 0)
          - m_rng tip_low\<bar> \<le> 10
   \<and> \<not> smooth_step tip_low
         (fst (generate_moves ''WARM-UP'' no_cues
                 \<lparr>LAST_MOVE = Some tip_low, LAST_PHASE = Some ''WARM-UP''\<rparr> []) ! 0)"
proof -
  have v: "m_dp tip_low = 85" "m_rng tip_low = 10" by (simp_all add: tip_low_def)
  have d: "\<not> \<bar>m_dp (fst (generate_moves ''WARM-UP'' no_cues
                     \<lparr>LAST_MOVE = Some tip_low, LAST_PHASE = Some ''WARM-UP''\<rparr> []) ! 0)
          - m_dp tip_low\<bar> \<le> 10"
    unfolding plain_after_tip_low v by simp
  have r: "\<not> \<bar>m_rng (fst (generate_moves ''WARM-UP'' no_cues
                     \<lparr>LAST_MOVE = Some tip_low, LAST_PHASE = Some ''WARM-UP''\<rparr> []) ! 0)
          - m_rng tip_low\<bar> \<le> 10"
    unfolding plain_after_tip_low v by simp
  have s: "\<not> smooth_step tip_low
         (fst (generate_moves ''WARM-UP'' no_cues
                 \<lparr>LAST_MOVE = Some tip_low, LAST_PHASE = Some ''WARM-UP''\<rparr> []) ! 0)"
    unfolding plain_after_tip_low by (simp add: smooth_step_def tip_low_def)
  show ?thesis using tip_low_call plain_after_tip_low v d r s by blast
qed

text \<open>
  Claim C3, amended. Within one call, every move after the first differs from the one
  before it by at most 6 in speed, 10 in depth and 10 in range, whatever the phase, the cues
  and the stored state. Across calls of the same phase the first move stays within these
  steps of the stored move only when that move lies inside the bounds of this call (it need
  not: the cues may differ between the calls); after a phase change the stored move is
  discarded, so the call does not depend on it.
\<close>

theorem consecutive_moves_smooth:
  assumes g: "generate_moves phase cues st rnd = (moves, st', rnd')"
  shows "length moves = 10
       \<and> (\<forall>i. 0 < i \<and> i < 10 \<longrightarrow>
              \<bar>m_sp (moves ! i) - m_sp (moves ! (i - 1))\<bar> \<le> 6
            \<and> \<bar>m_dp (moves ! i) - m_dp (moves ! (i - 1))\<bar> \<le> 10
            \<and> \<bar>m_rng (moves ! i) - m_rng (moves ! (i - 1))\<bar> \<le> 10)
       \<and> (LAST_PHASE st = Some (upper phase) \<and> LAST_MOVE st = Some p
            \<and> within_bounds (envelope_of (upper phase)) cues p \<longrightarrow> smooth_step p (moves ! 0))
       \<and> (LAST_PHASE st \<noteq> Some (upper phase) \<longrightarrow>
            generate_moves phase cues (st\<lparr>LAST_MOVE := q\<rparr>) rnd = generate_moves phase cues st rnd)"
proof -
  have len: "length moves = 10" and succ: "successively smooth_step moves"
    using generate_moves_invariant[OF g] by simp_all
  have pairs: "\<forall>i. 0 < i \<and> i < 10 \<longrightarrow>
              \<bar>m_sp (moves ! i) - m_sp (moves ! (i - 1))\<bar> \<le> 6
            \<and> \<bar>m_dp (moves ! i) - m_dp (moves ! (i - 1))\<bar> \<le> 10
            \<and> \<bar>m_rng (moves ! i) - m_rng (moves ! (i - 1))\<bar> \<le> 10"
  proof (intro allI impI)
    fix i :: nat assume i: "0 < i \<and> i < 10"
    then obtain j where j: "i = Suc j" by (cases i) auto
    have "smooth_step (moves ! j) (moves ! Suc j)"
      using successively_nth[OF succ, of j] i j len by simp
    then show "\<bar>m_sp (moves ! i) - m_sp (moves ! (i - 1))\<bar> \<le> 6
            \<and> \<bar>m_dp (moves ! i) - m_dp (moves ! (i - 1))\<bar> \<le> 10
            \<and> \<bar>m_rng (moves ! i) - m_rng (moves ! (i - 1))\<bar> \<le> 10"
      using j by (simp add: smooth_step_def)
  qed
  have cross: "LAST_PHASE st = Some (upper phase) \<and> LAST_MOVE st = Some p
            \<and> within_bounds (envelope_of (upper phase)) cues p \<longrightarrow> smooth_step p (moves ! 0)"
    using generate_moves_first_smooth[OF g] by blast
  have change: "LAST_PHASE st \<noteq> Some (upper phase) \<longrightarrow>
            generate_moves phase cues (st\<lparr>LAST_MOVE := q\<rparr>) rnd = generate_moves phase cues st rnd"
    using generate_moves_phase_change by blast
  show ?thesis using len pairs cross change by blast
qed

theorem consecutive_moves_smooth_witness:
  "generate_moves ''WARM-UP'' tip_cue \<lparr>LAST_MOVE = Some warm_high, LAST_PHASE = Some ''WARM-UP''\<rparr> []
     = (fst (generate_moves ''WARM-UP'' tip_cue \<lparr>LAST_MOVE = Some warm_high, LAST_PHASE = Some ''WARM-UP''\<rparr> []),
        fst (snd (generate_moves ''WARM-UP'' tip_cue \<lparr>LAST_MOVE = Some warm_high, LAST_PHASE = Some ''WARM-UP''\<rparr> [])),
        snd (snd (generate_moves ''WARM-UP'' tip_cue \<lparr>LAST_MOVE = Some warm_high, LAST_PHASE = Some ''WARM-UP''\<rparr> [])))
   \<and> (0::nat) < 1 \<and> (1::nat) < 10
   \<and> within_bounds (envelope_of (upper ''WARM-UP'')) tip_cue warm_high
   \<and> fst (generate_moves ''WARM-UP'' tip_cue \<lparr>LAST_MOVE = Some warm_high, LAST_PHASE = Some ''WARM-UP''\<rparr> []) ! 0
       = \<lparr>m_sp = 29, m_dp = 70, m_rng = 35, m_duration = 3000\<rparr>
   \<and> smooth_step warm_high
        (fst (generate_moves ''WARM-UP'' tip_cue \<lparr>LAST_MOVE = Some warm_high, LAST_PHASE = Some ''WARM-UP''\<rparr> []) ! 0)
   \<and> \<bar>m_dp (fst (generate_moves ''WARM-UP'' tip_cue \<lparr>LAST_MOVE = Some warm_high, LAST_PHASE = Some ''WARM-UP''\<rparr> []) ! 1)
        - m_dp (fst (generate_moves ''WARM-UP'' tip_cue \<lparr>LAST_MOVE = Some warm_high, LAST_PHASE = Some ''WARM-UP''\<rparr> []) ! 0)\<bar> \<le> 10
   \<and> generate_moves ''ACTIVE'' tip_cue \<lparr>LAST_MOVE = Some warm_high, LAST_PHASE = Some ''WARM-UP''\<rparr> []
       = generate_moves ''ACTIVE'' tip_cue \<lparr>LAST_MOVE = None, LAST_PHASE = Some ''WARM-UP''\<rparr> []"
proof -
  let ?st = "\<lparr>LAST_MOVE = Some warm_high, LAST_PHASE = Some ''WARM-UP''\<rparr>"
  have e: "generate_moves ''WARM-UP'' tip_cue ?st []
     = (fst (generate_moves ''WARM-UP'' tip_cue ?st []),
        fst (snd (generate_moves ''WARM-UP'' tip_cue ?st [])),
        snd (snd (generate_moves ''WARM-UP'' tip_cue ?st [])))"
    by simp
  have e2: "generate_moves ''ACTIVE'' tip_cue ?st []
     = (fst (generate_moves ''ACTIVE'' tip_cue ?st []),
        fst (snd (generate_moves ''ACTIVE'' tip_cue ?st [])),
        snd (snd (generate_moves ''ACTIVE'' tip_cue ?st [])))"
    by simp
  have ua: "upper ''ACTIVE'' = ''ACTIVE''" by code_simp
  have w: "within_bounds (envelope_of (upper ''WARM-UP'')) tip_cue warm_high"
    by (simp add: upper_WARM_UP envelope_of_WARM_UP WARM_UP_def within_bounds_def warm_high_def
        overridden_def tip_cue_def no_cues_def)
  have p: "LAST_PHASE ?st = Some (upper ''WARM-UP'')" "LAST_MOVE ?st = Some warm_high"
    by (simp_all add: upper_WARM_UP)
  have c: "LAST_PHASE ?st \<noteq> Some (upper ''ACTIVE'')" by (simp add: ua)
  have s: "smooth_step warm_high (fst (generate_moves ''WARM-UP'' tip_cue ?st []) ! 0)"
    using consecutive_moves_smooth [OF e, of warm_high] p w by blast
  have d: "\<bar>m_dp (fst (generate_moves ''WARM-UP'' tip_cue ?st []) ! 1)
        - m_dp (fst (generate_moves ''WARM-UP'' tip_cue ?st []) ! 0)\<bar> \<le> 10"
    using consecutive_moves_smooth [OF e, of warm_high] by force
  have a: "generate_moves ''ACTIVE'' tip_cue ?st []
       = generate_moves ''ACTIVE'' tip_cue \<lparr>LAST_MOVE = None, LAST_PHASE = Some ''WARM-UP''\<rparr> []"
    using consecutive_moves_smooth [OF e2, of _ None] c by simp
  show ?thesis using e w tip_after_warm_high s d a by simp
qed

section \<open>Properties of the mode loops\<close>

lemma is_set_Some [simp]: "is_set (Some s) t = (s \<le> t)"
  by (simp add: is_set_def)

lemma is_set_None [simp]: "is_set None t = False"
  by (simp add: is_set_def)

lemma interruptible_wait_bounds:
  "t \<le> interruptible_wait (Some s) t_end t \<and> interruptible_wait (Some s) t_end t \<le> max t (s + 49)"
proof (induction "Some s" t_end t rule: interruptible_wait.induct)
  case (1 t_end t)
  show ?case
  proof (cases "\<not> is_set (Some s) t \<and> t < t_end")
    case True
    then have ih: "t + 50 \<le> interruptible_wait (Some s) t_end (t + 50)
          \<and> interruptible_wait (Some s) t_end (t + 50) \<le> max (t + 50) (s + 49)"
      using "1" by blast
    have eq: "interruptible_wait (Some s) t_end t = interruptible_wait (Some s) t_end (t + 50)"
      using True by (subst interruptible_wait.simps) simp
    have "t < s" using True by simp
    then show ?thesis unfolding eq using ih by auto
  next
    case False
    then have "interruptible_wait (Some s) t_end t = t"
      by (subst interruptible_wait.simps) auto
    then show ?thesis by simp
  qed
qed

lemma interruptible_wait_progress:
  "t < s \<Longrightarrow> t < t_end \<Longrightarrow> t < interruptible_wait (Some s) t_end t"
proof -
  assume a: "t < s" "t < t_end"
  have "interruptible_wait (Some s) t_end t = interruptible_wait (Some s) t_end (t + 50)"
    using a by (subst interruptible_wait.simps) simp
  moreover have "t + 50 \<le> interruptible_wait (Some s) t_end (t + 50)"
    using interruptible_wait_bounds by blast
  ultimately show ?thesis by simp
qed

text \<open>The time a call of \<open>handy.move\<close> blocks.\<close>

lemma io_le_now [simp]: "io_le D (w\<lparr>now := t\<rparr>) = io_le D w"
  by (simp add: io_le_def)

lemma io_le_device [simp]: "io_le D (w\<lparr>device := d\<rparr>) = io_le D w"
  by (simp add: io_le_def)

lemma io_le_draws [simp]: "io_le D (w\<lparr>draws := r\<rparr>) = io_le D w"
  by (simp add: io_le_def)

lemma io_le_send_message [simp]: "io_le D (send_message m w) = io_le D w"
  by (simp add: io_le_def send_message_def)

lemma io_le_update_mood [simp]: "io_le D (update_mood m w) = io_le D w"
  by (simp add: io_le_def update_mood_def)

lemma io_le_sleep [simp]: "io_le D (sleep t w) = io_le D w"
  by (simp add: io_le_def sleep_def)

lemma now_send_message [simp]: "now (send_message m w) = now w"
  by (simp add: send_message_def)

lemma now_update_mood [simp]: "now (update_mood m w) = now w"
  by (simp add: update_mood_def)

lemma block_io_facts:
  "now w \<le> now (block_io w) \<and> device (block_io w) = device w
   \<and> on_stop_calls (block_io w) = on_stop_calls w
   \<and> (io_le D w \<longrightarrow> now (block_io w) \<le> now w + D \<and> io_le D (block_io w))"
  by (cases "io_times w") (auto simp: block_io_def io_le_def)

lemma timed_move_facts:
  assumes "timed_move sp dp rng w = Inr w0"
  shows "move sp dp rng (device w) = Inr (device w0)" and "now w \<le> now w0"
    and "io_le D w \<Longrightarrow> now w0 \<le> now w + D \<and> io_le D w0"
  using assms block_io_facts[of w D]
  by (auto simp: timed_move_def split: sum.splits if_splits)

lemma try_move_facts:
  "now w \<le> now (try_move sp dp rng w)
   \<and> (io_le D w \<longrightarrow> now (try_move sp dp rng w) \<le> now w + D \<and> io_le D (try_move sp dp rng w))"
proof (cases "timed_move sp dp rng w")
  case (Inl e)
  then show ?thesis by (simp add: try_move_def)
next
  case (Inr w0)
  then show ?thesis using timed_move_facts(2)[OF Inr] timed_move_facts(3)[OF Inr, of D]
    by (simp add: try_move_def)
qed

lemma now_step_move:
  "now (step_move stop_at sp dp rng dur w)
     = interruptible_wait stop_at (now (try_move (py_of_int sp) (py_of_int dp) (py_of_int rng) w) + dur)
         (now (try_move (py_of_int sp) (py_of_int dp) (py_of_int rng) w))"
  by (simp add: step_move_def Let_def)

lemma io_le_step_move:
  "io_le D (step_move stop_at sp dp rng dur w)
     = io_le D (try_move (py_of_int sp) (py_of_int dp) (py_of_int rng) w)"
  by (simp add: step_move_def Let_def)

lemma step_move_relative:
  "now (step_move (Some s) sp dp rng dur w)
     \<le> max (now (try_move (py_of_int sp) (py_of_int dp) (py_of_int rng) w)) (s + 49)"
  unfolding now_step_move using interruptible_wait_bounds by blast

lemma step_move_facts:
  assumes "now w < s" and "io_le D w" and "0 < dur"
  shows "now w < now (step_move (Some s) sp dp rng dur w)
       \<and> now (step_move (Some s) sp dp rng dur w) \<le> s + max 49 D
       \<and> io_le D (step_move (Some s) sp dp rng dur w)"
proof -
  let ?w1 = "try_move (py_of_int sp) (py_of_int dp) (py_of_int rng) w"
  have t: "now w \<le> now ?w1" "now ?w1 \<le> now w + D" "io_le D ?w1"
    using try_move_facts[of w "py_of_int sp" "py_of_int dp" "py_of_int rng" D] assms(2) by simp_all
  have b: "now ?w1 \<le> interruptible_wait (Some s) (now ?w1 + dur) (now ?w1)"
     "interruptible_wait (Some s) (now ?w1 + dur) (now ?w1) \<le> max (now ?w1) (s + 49)"
    using interruptible_wait_bounds[of "now ?w1" s "now ?w1 + dur"] by simp_all
  have lo: "now w < interruptible_wait (Some s) (now ?w1 + dur) (now ?w1)"
  proof (cases "now ?w1 < s")
    case True
    then have "now ?w1 < interruptible_wait (Some s) (now ?w1 + dur) (now ?w1)"
      using assms(3) by (intro interruptible_wait_progress) simp_all
    then show ?thesis using t(1) by simp
  next
    case False
    then show ?thesis using assms(1) b(1) by simp
  qed
  have hi: "interruptible_wait (Some s) (now ?w1 + dur) (now ?w1) \<le> s + max 49 D"
    using b(2) t(2) assms(1) by (simp add: max_def split: if_splits)
  show ?thesis unfolding now_step_move io_le_step_move using lo hi t(3) by simp
qed

text \<open>A loop that reads the signal at its head and whose pass, started before the signal,
  takes time and ends by \<open>B\<close>, returns by \<open>B\<close>.\<close>

lemma polled_loop_returns:
  fixes loop :: "world \<Rightarrow> world option" and pass :: "world \<Rightarrow> world"
  assumes unfold: "\<And>w. loop w = (if s \<le> now w then Some w else loop (pass w))"
    and step: "\<And>w. now w < s \<Longrightarrow> P w \<Longrightarrow> now w < now (pass w) \<and> now (pass w) \<le> B \<and> P (pass w)"
    and init: "P w" "now w \<le> B"
  shows "\<exists>w'. loop w = Some w' \<and> now w' \<le> B \<and> P w'"
  using init
proof (induction "s - now w" arbitrary: w rule: less_induct)
  case less
  show ?case
  proof (cases "s \<le> now w")
    case True
    then have "loop w = Some w" using unfold[of w] by simp
    then show ?thesis using less.prems by simp
  next
    case False
    have e: "loop w = loop (pass w)" using unfold[of w] False by simp
    have b: "now w < now (pass w)" "now (pass w) \<le> B" "P (pass w)"
      using step[of w] False less.prems by simp_all
    have "s - now (pass w) < s - now w" using b(1) False by linarith
    from less.hyps[OF this b(3) b(2)] show ?thesis unfolding e .
  qed
qed

text \<open>The custom patterns.\<close>

lemma waves_pass_bounds:
  "now w < s \<Longrightarrow> io_le D w \<Longrightarrow> cs \<noteq> [] \<Longrightarrow>
     now w < now (waves_pass (Some s) cs w) \<and> now (waves_pass (Some s) cs w) \<le> s + max 49 D
     \<and> io_le D (waves_pass (Some s) cs w)"
proof (induction cs arbitrary: w)
  case Nil
  then show ?case by simp
next
  case (Cons dp dps)
  let ?w1 = "step_move (Some s) (35 + dp mod 20) dp 50 800 w"
  have f: "now w < now ?w1" "now ?w1 \<le> s + max 49 D" "io_le D ?w1"
    using step_move_facts[OF Cons.prems(1,2), of 800] by simp_all
  show ?case
  proof (cases "s \<le> now ?w1 \<or> dps = []")
    case True
    then have "waves_pass (Some s) (dp # dps) w = ?w1" by (cases dps) (auto simp: Let_def)
    then show ?thesis using f by simp
  next
    case False
    then have e: "waves_pass (Some s) (dp # dps) w = waves_pass (Some s) dps ?w1" by (simp add: Let_def)
    show ?thesis unfolding e using Cons.IH[of ?w1] False f by auto
  qed
qed

lemma pulse_pass_bounds:
  "now w < s \<Longrightarrow> io_le D w \<Longrightarrow> rs \<noteq> [] \<Longrightarrow>
     now w < now (pulse_pass (Some s) rs w) \<and> now (pulse_pass (Some s) rs w) \<le> s + max 49 D
     \<and> io_le D (pulse_pass (Some s) rs w)"
proof (induction rs arbitrary: w)
  case Nil
  then show ?case by simp
next
  case (Cons r rs)
  let ?w1 = "step_move (Some s) 55 55 r 500 w"
  have f: "now w < now ?w1" "now ?w1 \<le> s + max 49 D" "io_le D ?w1"
    using step_move_facts[OF Cons.prems(1,2), of 500] by simp_all
  show ?case
  proof (cases "s \<le> now ?w1 \<or> rs = []")
    case True
    then have "pulse_pass (Some s) (r # rs) w = ?w1" by (cases rs) (auto simp: Let_def)
    then show ?thesis using f by simp
  next
    case False
    then have e: "pulse_pass (Some s) (r # rs) w = pulse_pass (Some s) rs ?w1" by (simp add: Let_def)
    show ?thesis unfolding e using Cons.IH[of ?w1] False f by auto
  qed
qed

lemma stairs_pass_bounds:
  "now w < s \<Longrightarrow> io_le D w \<Longrightarrow> xs \<noteq> [] \<Longrightarrow>
     now w < now (stairs_pass (Some s) xs w) \<and> now (stairs_pass (Some s) xs w) \<le> s + max 49 D
     \<and> io_le D (stairs_pass (Some s) xs w)"
proof (induction xs arbitrary: w)
  case Nil
  then show ?case by simp
next
  case (Cons x xs)
  obtain i dp where x: "x = (i, dp)" by (cases x)
  let ?w1 = "step_move (Some s) (if i < length up then 30 + int i * 3 else 35) dp 40 1200 w"
  have f: "now w < now ?w1" "now ?w1 \<le> s + max 49 D" "io_le D ?w1"
    using step_move_facts[OF Cons.prems(1,2), of 1200] by simp_all
  show ?case
  proof (cases "s \<le> now ?w1 \<or> xs = []")
    case True
    then have "stairs_pass (Some s) (x # xs) w = ?w1" unfolding x by (cases xs) (auto simp: Let_def)
    then show ?thesis using f by simp
  next
    case False
    then have e: "stairs_pass (Some s) (x # xs) w = stairs_pass (Some s) xs ?w1"
      unfolding x by (simp add: Let_def)
    show ?thesis unfolding e using Cons.IH[of ?w1] False f by auto
  qed
qed

lemma waves_mode_logic_returns:
  assumes "now w \<le> s" and "io_le D w"
  shows "\<exists>w'. waves_mode_logic (Some s) w = Some w' \<and> now w' \<le> s + max 49 D"
proof -
  let ?w0 = "update_mood ''Playful'' (send_message (''Ok, vado a onde morbide'' @ ellipsis) w)"
  have u: "\<And>v. waves_loop (Some s) v
             = (if s \<le> now v then Some v else waves_loop (Some s) (waves_pass (Some s) centers v))"
    by (subst waves_loop.simps) simp
  have st: "\<And>v. now v < s \<Longrightarrow> io_le D v \<Longrightarrow>
              now v < now (waves_pass (Some s) centers v)
              \<and> now (waves_pass (Some s) centers v) \<le> s + max 49 D
              \<and> io_le D (waves_pass (Some s) centers v)"
    by (rule waves_pass_bounds) (simp_all add: centers_def)
  have "\<exists>w'. waves_loop (Some s) ?w0 = Some w' \<and> now w' \<le> s + max 49 D \<and> io_le D w'"
    by (rule polled_loop_returns[where pass = "waves_pass (Some s) centers" and s = s, OF u st])
       (use assms in simp_all)
  then show ?thesis by (auto simp: waves_mode_logic_def)
qed

lemma pulse_mode_logic_returns:
  assumes "now w \<le> s" and "io_le D w"
  shows "\<exists>w'. pulse_mode_logic (Some s) w = Some w' \<and> now w' \<le> s + max 49 D"
proof -
  let ?w0 = "update_mood ''Focused'' (send_message (''Arrivano gli impulsi'' @ ellipsis) w)"
  have u: "\<And>v. pulse_loop (Some s) v
             = (if s \<le> now v then Some v else pulse_loop (Some s) (pulse_pass (Some s) ranges v))"
    by (subst pulse_loop.simps) simp
  have st: "\<And>v. now v < s \<Longrightarrow> io_le D v \<Longrightarrow>
              now v < now (pulse_pass (Some s) ranges v)
              \<and> now (pulse_pass (Some s) ranges v) \<le> s + max 49 D
              \<and> io_le D (pulse_pass (Some s) ranges v)"
    by (rule pulse_pass_bounds) (simp_all add: ranges_def)
  have "\<exists>w'. pulse_loop (Some s) ?w0 = Some w' \<and> now w' \<le> s + max 49 D \<and> io_le D w'"
    by (rule polled_loop_returns[where pass = "pulse_pass (Some s) ranges" and s = s, OF u st])
       (use assms in simp_all)
  then show ?thesis by (auto simp: pulse_mode_logic_def)
qed

lemma stairs_mode_logic_returns:
  assumes "now w \<le> s" and "io_le D w"
  shows "\<exists>w'. stairs_mode_logic (Some s) w = Some w' \<and> now w' \<le> s + max 49 D"
proof -
  let ?w0 = "update_mood ''Teasing''
               (send_message (''Salgo a gradini'' @ ellipsis @ '' e poi riscendo.'') w)"
  have u: "\<And>v. stairs_loop (Some s) v
             = (if s \<le> now v then Some v
                else stairs_loop (Some s) (stairs_pass (Some s) (enumerate 0 seq) v))"
    by (subst stairs_loop.simps) simp
  have st: "\<And>v. now v < s \<Longrightarrow> io_le D v \<Longrightarrow>
              now v < now (stairs_pass (Some s) (enumerate 0 seq) v)
              \<and> now (stairs_pass (Some s) (enumerate 0 seq) v) \<le> s + max 49 D
              \<and> io_le D (stairs_pass (Some s) (enumerate 0 seq) v)"
    by (rule stairs_pass_bounds) (simp_all add: seq_def up_def)
  have "\<exists>w'. stairs_loop (Some s) ?w0 = Some w' \<and> now w' \<le> s + max 49 D \<and> io_le D w'"
    by (rule polled_loop_returns[where pass = "stairs_pass (Some s) (enumerate 0 seq)" and s = s, OF u st])
       (use assms in simp_all)
  then show ?thesis by (auto simp: stairs_mode_logic_def)
qed

lemma tease_steps_bounds:
  "now w \<le> s + max 49 D \<Longrightarrow> io_le D w \<Longrightarrow> 0 < dur \<Longrightarrow>
     now (tease_steps (Some s) sp rng dur dps w) \<le> s + max 49 D
     \<and> io_le D (tease_steps (Some s) sp rng dur dps w)"
proof (induction dps arbitrary: w)
  case Nil
  then show ?case by simp
next
  case (Cons dp dps)
  show ?case
  proof (cases "s \<le> now w")
    case True
    then show ?thesis using Cons.prems by simp
  next
    case False
    then have lt: "now w < s" by simp
    let ?w1 = "step_move (Some s) sp dp rng dur w"
    have f: "now ?w1 \<le> s + max 49 D" "io_le D ?w1"
      using step_move_facts[OF lt Cons.prems(2,3)] by simp_all
    have e: "tease_steps (Some s) sp rng dur (dp # dps) w = tease_steps (Some s) sp rng dur dps ?w1"
      using False by simp
    show ?thesis unfolding e using Cons.IH[OF f Cons.prems(3)] .
  qed
qed

lemma hold_loop_returns:
  "now w \<le> s + max 49 D \<Longrightarrow> io_le D w \<Longrightarrow>
   \<exists>w'. hold_loop (Some s) t_end w = Some w' \<and> now w' \<le> s + max 49 D \<and> io_le D w'"
proof (induction "t_end - now w" arbitrary: w rule: less_induct)
  case less
  show ?case
  proof (cases "now w < s \<and> now w < t_end")
    case False
    then have "hold_loop (Some s) t_end w = Some w" by (subst hold_loop.simps) auto
    then show ?thesis using less.prems by simp
  next
    case True
    let ?w1 = "step_move (Some s) 20 88 15 600 w"
    have e: "hold_loop (Some s) t_end w = hold_loop (Some s) t_end ?w1"
      using True by (subst hold_loop.simps) simp
    have f: "now w < now ?w1" "now ?w1 \<le> s + max 49 D" "io_le D ?w1"
      using step_move_facts[of w s D 600] True less.prems(2) by simp_all
    have "t_end - now ?w1 < t_end - now w" using f(1) True by linarith
    from less.hyps[OF this f(2) f(3)] show ?thesis unfolding e .
  qed
qed

lemma teasehold_mode_logic_returns:
  assumes "now w \<le> s" and "io_le D w"
  shows "\<exists>w'. teasehold_mode_logic (Some s) w = Some w' \<and> now w' \<le> s + max 49 D"
proof -
  define w0 where "w0 = update_mood ''Seductive''
                 (send_message (''Ti porto su piano'' @ ellipsis @ '' e ti tengo l'' @ i_grave @ ''.'') w)"
  define w1 where "w1 = tease_steps (Some s) 25 20 600 [40, 45, 50, 55, 60, 65, 70, 75, 80, 85] w0"
  have i0: "now w0 \<le> s + max 49 D" "io_le D w0" using assms by (simp_all add: w0_def)
  have "now w1 \<le> s + max 49 D \<and> io_le D w1"
    unfolding w1_def by (rule tease_steps_bounds[OF i0]) simp
  then have i1: "now w1 \<le> s + max 49 D" "io_le D w1" by blast+
  obtain w2 where h: "hold_loop (Some s) (now w1 + 6000) w1 = Some w2"
    and i2: "now w2 \<le> s + max 49 D" "io_le D w2"
    using hold_loop_returns[OF i1] by blast
  have "now (tease_steps (Some s) 22 25 500 [85, 80, 75, 70, 65, 60, 55, 50] w2) \<le> s + max 49 D
      \<and> io_le D (tease_steps (Some s) 22 25 500 [85, 80, 75, 70, 65, 60, 55, 50] w2)"
    by (rule tease_steps_bounds[OF i2]) simp
  then have i3: "now (tease_steps (Some s) 22 25 500 [85, 80, 75, 70, 65, 60, 55, 50] w2) \<le> s + max 49 D"
    by blast
  have "teasehold_mode_logic (Some s) w
          = Some (tease_steps (Some s) 22 25 500 [85, 80, 75, 70, 65, 60, 55, 50] w2)"
    unfolding teasehold_mode_logic_def Let_def w0_def[symmetric] w1_def[symmetric] h
    by (simp del: tease_steps.simps)
  then show ?thesis using i3 by blast
qed

text \<open>The Post-Orgasm loop.\<close>

lemma sliced_wait_bounds:
  "t \<le> sliced_wait (Some s) n t \<and> sliced_wait (Some s) n t \<le> max t (s + 99)"
proof (induction n arbitrary: t)
  case 0
  then show ?case by simp
next
  case (Suc n)
  show ?case
  proof (cases "s \<le> t")
    case True
    then show ?thesis by simp
  next
    case False
    then show ?thesis using Suc[of "t + 100"] by auto
  qed
qed

lemma sliced_wait_progress: "t < s \<Longrightarrow> 0 < n \<Longrightarrow> t < sliced_wait (Some s) n t"
proof -
  assume a: "t < s" "0 < n"
  then obtain k where k: "n = Suc k" by (cases n) auto
  show ?thesis unfolding k using sliced_wait_bounds[of "t + 100" s k] a(1) by simp
qed

lemma draw_int_facts:
  "draw_int a b w = (v, w') \<Longrightarrow> now w' = now w \<and> device w' = device w \<and> io_le D w' = io_le D w"
  by (auto simp: draw_int_def split: prod.splits)

lemma uniform_ms_facts:
  assumes "uniform_ms a b w = (t, w')" and "a \<le> b"
  shows "a \<le> t \<and> t \<le> b \<and> now w' = now w \<and> device w' = device w \<and> io_le D w' = io_le D w"
proof -
  obtain v r where r: "randint (int a) (int b) (draws w) = (v, r)" by (cases "randint (int a) (int b) (draws w)")
  have "int a \<le> v \<and> v \<le> int b" using randint_range[OF _ r] assms(2) by simp
  moreover have "t = nat v" "w' = w\<lparr>draws := r\<rparr>" using assms(1) r by (simp_all add: uniform_ms_def)
  ultimately show ?thesis by auto
qed

lemma post_orgasm_mode_logic_returns:
  assumes "now w \<le> s" and "io_le D w"
  shows "\<exists>w'. post_orgasm_mode_logic (Some s) w = Some w' \<and> now w' \<le> s + max 99 D"
proof -
  define pass where "pass = (\<lambda>v. case draw_int 1 5 v of (r, w1) \<Rightarrow>
        let sp = max 1 (min 5 r);
            w2 = try_move (py_of_int sp) (py_of_int 100) (py_of_int 100) w1
        in w2\<lparr>now := sliced_wait (Some s) 50 (now w2)\<rparr>)"
  have u: "\<And>v. post_orgasm_loop (Some s) v
             = (if s \<le> now v then Some v else post_orgasm_loop (Some s) (pass v))"
    by (subst post_orgasm_loop.simps) (simp add: pass_def Let_def split: prod.splits)
  have st: "\<And>v. now v < s \<Longrightarrow> io_le D v \<Longrightarrow>
              now v < now (pass v) \<and> now (pass v) \<le> s + max 99 D \<and> io_le D (pass v)"
  proof -
    fix v assume a: "now v < s" "io_le D v"
    obtain r w1 where d: "draw_int 1 5 v = (r, w1)" by (cases "draw_int 1 5 v")
    define w2 where "w2 = try_move (py_of_int (max 1 (min 5 r))) (py_of_int 100) (py_of_int 100) w1"
    have d1: "now w1 = now v" "io_le D w1" using draw_int_facts[OF d, of D] a(2) by simp_all
    have t: "now w1 \<le> now w2" "now w2 \<le> now w1 + D" "io_le D w2"
      unfolding w2_def
      using try_move_facts[of w1 "py_of_int (max 1 (min 5 r))" "py_of_int 100" "py_of_int 100" D] d1(2)
      by simp_all
    have p: "pass v = w2\<lparr>now := sliced_wait (Some s) 50 (now w2)\<rparr>"
      by (simp add: pass_def d Let_def w2_def)
    have b: "now w2 \<le> sliced_wait (Some s) 50 (now w2)"
      "sliced_wait (Some s) 50 (now w2) \<le> max (now w2) (s + 99)"
      using sliced_wait_bounds[of "now w2" s 50] by simp_all
    have lo: "now v < sliced_wait (Some s) 50 (now w2)"
    proof (cases "now w2 < s")
      case True
      then have "now w2 < sliced_wait (Some s) 50 (now w2)" by (intro sliced_wait_progress) simp_all
      then show ?thesis using t(1) d1(1) by simp
    next
      case False
      then show ?thesis using a(1) b(1) by simp
    qed
    have hi: "sliced_wait (Some s) 50 (now w2) \<le> s + max 99 D"
      using b(2) t(2) d1(1) a(1) by (simp add: max_def split: if_splits)
    show "now v < now (pass v) \<and> now (pass v) \<le> s + max 99 D \<and> io_le D (pass v)"
      unfolding p using lo hi t(3) by simp
  qed
  have "\<exists>w'. post_orgasm_loop (Some s)
               (send_message ''Post-Orgasm: massaggio lento e costante. Rilassati.'' w) = Some w'
            \<and> now w' \<le> s + max 99 D \<and> io_le D w'"
    by (rule polled_loop_returns[where pass = pass and s = s, OF u st]) (use assms in simp_all)
  then show ?thesis by (auto simp: post_orgasm_mode_logic_def)
qed

text \<open>The replay.\<close>

lemma move_keeps_no_stop:
  assumes ns: "\<not> is_stop_speed speed" and m: "move speed depth rng (c, t) = Inr (c', t')"
    and p: "\<forall>p\<in>set (puts t). fst p \<noteq> ''hamp/stop''"
  shows "\<forall>p\<in>set (puts t'). fst p \<noteq> ''hamp/stop''"
proof (cases "handy_key c = []")
  case True
  then have "move speed depth rng (c, t) = Inr (c, t)" by (simp add: move_empty_key)
  then show ?thesis using m p by simp
next
  case False
  have n: "is_nonstop speed"
    using m ns False
    by (auto simp: move_def is_nonstop_def is_stop_speed_def split: sum.splits if_splits)
  obtain t1 where m1: "move speed depth rng (c, t) =
           Inr (c\<lparr>manual_mode_active := True, last_relative_speed := py_round (pct speed),
                  last_depth_pos := py_round (pct depth),
                  last_stroke_speed := final_velocity c (pct speed)\<rparr>, t1)"
    and pt: "puts t1 = puts t @ (if manual_mode_active c then [] else manual_pair)
                       @ move_commands c speed depth rng"
    using move_nonstop_result[OF False n, of depth rng t] by blast
  have "\<forall>p\<in>set (puts t1). fst p \<noteq> ''hamp/stop''"
    unfolding pt using p by (auto simp: manual_pair_def move_commands_def split: prod.splits)
  moreover have "t' = t1" using m m1 by simp
  ultimately show ?thesis by simp
qed

lemma timed_move_keeps_no_stop:
  assumes "timed_move sp dp rng w = Inr w0" and "\<not> is_stop_speed sp" and "no_stop_sent w"
  shows "no_stop_sent w0"
proof -
  obtain c t where d: "device w = (c, t)" by (cases "device w")
  obtain c' t' where d': "device w0 = (c', t')" by (cases "device w0")
  have "move sp dp rng (c, t) = Inr (c', t')" using timed_move_facts(1)[OF assms(1)] d d' by simp
  from move_keeps_no_stop[OF assms(2) this] show ?thesis
    using assms(3) d d' by (simp add: no_stop_sent_def)
qed

lemma replay_pass_facts:
  "now w \<le> now (replay_pass (Some s) ms w)
   \<and> (io_le D w \<longrightarrow> now (replay_pass (Some s) ms w) \<le> max (now w) (s + 1199 + D)
                    \<and> io_le D (replay_pass (Some s) ms w))
   \<and> (no_stop_sent w \<and> (\<forall>m\<in>set ms. \<not> is_stop_speed (replay_speed m)) \<longrightarrow>
        no_stop_sent (replay_pass (Some s) ms w))"
proof (induction ms arbitrary: w)
  case Nil
  then show ?case by simp
next
  case (Cons m ms)
  show ?case
  proof (cases "s \<le> now w")
    case True
    then show ?thesis by simp
  next
    case False
    let ?mv = "timed_move (get_or (d_sp m) (py_of_int 10)) (get_or (d_dp m) (py_of_int 50))
                     (get_or (d_rng m) (py_of_int 30)) w"
    show ?thesis
    proof (cases ?mv)
      case (Inl e)
      then have e: "replay_pass (Some s) (m # ms) w = replay_pass (Some s) ms w"
        using False by simp
      show ?thesis unfolding e using Cons.IH[of w] by auto
    next
      case (Inr w0)
      obtain t w1 where u: "uniform_ms 500 1200 w0 = (t, w1)" by (cases "uniform_ms 500 1200 w0")
      have uf: "500 \<le> t" "t \<le> 1200" "now w1 = now w0" "device w1 = device w0" "io_le D w1 = io_le D w0"
        using uniform_ms_facts[OF u, of D] by simp_all
      let ?w2 = "sleep t w1"
      have e: "replay_pass (Some s) (m # ms) w = replay_pass (Some s) ms ?w2"
        using False Inr u by simp
      have n2: "now ?w2 = now w0 + t" "device ?w2 = device w0" "io_le D ?w2 = io_le D w0"
        using uf by (simp_all add: sleep_def)
      have lo: "now w \<le> now ?w2" using timed_move_facts(2)[OF Inr] n2(1) by simp
      have io: "io_le D w \<longrightarrow> now ?w2 \<le> s + 1199 + D \<and> io_le D ?w2"
        using timed_move_facts(3)[OF Inr, of D] n2 uf(2) False by auto
      have ns: "no_stop_sent w \<and> \<not> is_stop_speed (replay_speed m) \<longrightarrow> no_stop_sent ?w2"
      proof
        assume a: "no_stop_sent w \<and> \<not> is_stop_speed (replay_speed m)"
        then have "\<not> is_stop_speed (get_or (d_sp m) (py_of_int 10))" by (simp add: replay_speed_def)
        from timed_move_keeps_no_stop[OF Inr this] a have "no_stop_sent w0" by simp
        then show "no_stop_sent ?w2" using n2(2) by (simp add: no_stop_sent_def)
      qed
      have ih: "now ?w2 \<le> now (replay_pass (Some s) ms ?w2)"
        "io_le D ?w2 \<longrightarrow> now (replay_pass (Some s) ms ?w2) \<le> max (now ?w2) (s + 1199 + D)
                    \<and> io_le D (replay_pass (Some s) ms ?w2)"
        "no_stop_sent ?w2 \<and> (\<forall>m\<in>set ms. \<not> is_stop_speed (replay_speed m)) \<longrightarrow>
           no_stop_sent (replay_pass (Some s) ms ?w2)"
        using Cons.IH[of ?w2] by blast+
      have c1: "now w \<le> now (replay_pass (Some s) ms ?w2)" using lo ih(1) by simp
      have c2: "io_le D w \<longrightarrow> now (replay_pass (Some s) ms ?w2) \<le> max (now w) (s + 1199 + D)
                    \<and> io_le D (replay_pass (Some s) ms ?w2)"
        using io ih(2) by (auto simp: max_def)
      have c3: "no_stop_sent w \<and> (\<forall>m\<in>set (m # ms). \<not> is_stop_speed (replay_speed m)) \<longrightarrow>
        no_stop_sent (replay_pass (Some s) ms ?w2)"
        using ns ih(3) by simp
      show ?thesis unfolding e using c1 c2 c3 by blast
    qed
  qed
qed

lemma loop_moves_randomly_returns:
  assumes "now w \<le> s" and "io_le D w"
  shows "\<exists>w'. loop_moves_randomly ms (Some s) w = Some w' \<and> now w' \<le> s + 4699 + D
        \<and> (no_stop_sent w \<and> (\<forall>m\<in>set ms. \<not> is_stop_speed (replay_speed m)) \<longrightarrow> no_stop_sent w')"
proof (cases "ms = []")
  case True
  then show ?thesis using assms by (simp add: loop_moves_randomly_def)
next
  case False
  define A where "A = (no_stop_sent w \<and> (\<forall>m\<in>set ms. \<not> is_stop_speed (replay_speed m)))"
  define P where "P = (\<lambda>v. io_le D v \<and> (A \<longrightarrow> no_stop_sent v))"
  define pass where "pass = (\<lambda>v. case uniform_ms 1500 3500 (replay_pass (Some s) ms v) of
                                    (t, w1) \<Rightarrow> sleep t w1)"
  have u: "\<And>v. replay_loop (Some s) ms v
             = (if s \<le> now v then Some v else replay_loop (Some s) ms (pass v))"
    by (subst replay_loop.simps) (simp add: pass_def split: prod.splits)
  have st: "\<And>v. now v < s \<Longrightarrow> P v \<Longrightarrow>
              now v < now (pass v) \<and> now (pass v) \<le> s + 4699 + D \<and> P (pass v)"
  proof -
    fix v assume a: "now v < s" "P v"
    let ?wp = "replay_pass (Some s) ms v"
    obtain t w1 where uu: "uniform_ms 1500 3500 ?wp = (t, w1)" by (cases "uniform_ms 1500 3500 ?wp")
    have uf: "1500 \<le> t" "t \<le> 3500" "now w1 = now ?wp" "device w1 = device ?wp"
      "io_le D w1 = io_le D ?wp"
      using uniform_ms_facts[OF uu, of D] by simp_all
    have p: "pass v = sleep t w1" by (simp add: pass_def uu)
    have pf: "now v \<le> now ?wp" "now ?wp \<le> max (now v) (s + 1199 + D)" "io_le D ?wp"
      "A \<longrightarrow> no_stop_sent ?wp"
      using replay_pass_facts[of v s ms D] a(2) by (auto simp: P_def A_def)
    have n2: "now (sleep t w1) = now ?wp + t" "device (sleep t w1) = device ?wp"
      using uf by (simp_all add: sleep_def)
    have lo: "now v < now (sleep t w1)" using n2 pf(1) uf(1) by linarith
    have hi: "now (sleep t w1) \<le> s + 4699 + D"
      using n2 pf(2) uf(2) a(1) by (simp add: max_def split: if_splits)
    have pp: "P (sleep t w1)"
      using pf(3,4) uf(5) n2(2) by (simp add: P_def no_stop_sent_def)
    show "now v < now (pass v) \<and> now (pass v) \<le> s + 4699 + D \<and> P (pass v)"
      unfolding p using lo hi pp by blast
  qed
  have "\<exists>w'. replay_loop (Some s) ms w = Some w' \<and> now w' \<le> s + 4699 + D \<and> P w'"
    by (rule polled_loop_returns[where pass = pass and s = s and P = P, OF u st])
       (use assms in \<open>simp_all add: P_def A_def\<close>)
  then show ?thesis using False by (auto simp: loop_moves_randomly_def P_def A_def)
qed

text \<open>The thread of a mode and the tick of Auto mode.\<close>

lemma run_cleanup:
  assumes "mode_func (sleep 2000 (send_message msg w)) = Some (w2, exn)"
  shows "\<exists>w'. run mode_func msg w = Some w' \<and> device w' = stop (device w2)
           \<and> emitted (snd (device w2)) (snd (device w'))
               = (if handy_key (fst (device w2)) = [] then [] else [(''hamp/stop'', [])])
           \<and> on_stop_calls w' = on_stop_calls w2 + 1"
proof -
  have e: "emitted (snd (device w2)) (snd (stop (device w2)))
        = (if handy_key (fst (device w2)) = [] then [] else [(''hamp/stop'', [])])"
    by (rule emitted_append) (rule puts_stop)
  have d: "device (timed_stop w2) = stop (device w2)"
    "on_stop_calls (timed_stop w2) = on_stop_calls w2"
    using block_io_facts[of w2] by (simp_all add: timed_stop_def Let_def)
  show ?thesis using assms e d by (simp add: run_def Let_def send_message_def)
qed

lemma auto_tick_duration:
  assumes "snd (auto_tick inp w) = None" and "fst (t_timings inp) \<le> snd (t_timings inp)"
  shows "now w + fst (t_timings inp) \<le> now (fst (auto_tick inp w))"
proof -
  define resp where "resp = (case t_llm inp of LLM_raises \<Rightarrow> None | LLM_returns r \<Rightarrow> r)"
  define w1 where "w1 = (case resp of
                  None \<Rightarrow> w
                | Some r \<Rightarrow> (case r_chat r of
                               None \<Rightarrow> w
                             | Some c \<Rightarrow> if strip c \<noteq> [] then send_message (strip c) w else w))"
  define w2 where "w2 = (case resp of
                       None \<Rightarrow> w1
                     | Some r \<Rightarrow>
                        (case r_move r of
                           None \<Rightarrow> w1
                         | Some md \<Rightarrow>
                            (case (d_sp md, d_dp md, d_rng md) of
                               (Some s, Some d, Some g) \<Rightarrow> try_move s d g w1
                             | _ \<Rightarrow> w1)))"
  have tm: "\<And>a b c v. now v \<le> now (try_move a b c v)" using try_move_facts by blast
  have n1: "now w1 = now w"
    by (simp add: w1_def send_message_def split: option.splits)
  have tm1: "\<And>a b c. now w \<le> now (try_move a b c w1)" using tm[of w1] n1 by simp
  have n2: "now w \<le> now w2" using n1 tm1 by (simp add: w2_def split: option.splits)
  obtain sp w3 where d3: "draw_int 20 80 w2 = (sp, w3)" by (cases "draw_int 20 80 w2")
  obtain dp w4 where d4: "draw_int 30 70 w3 = (dp, w4)" by (cases "draw_int 30 70 w3")
  obtain rng w5 where d5: "draw_int 20 50 w4 = (rng, w5)" by (cases "draw_int 20 50 w4")
  define w6 where "w6 = try_move (py_of_int sp) (py_of_int dp) (py_of_int rng) w5"
  obtain t w7 where u: "uniform_ms (fst (t_timings inp)) (snd (t_timings inp)) w6 = (t, w7)"
    by (cases "uniform_ms (fst (t_timings inp)) (snd (t_timings inp)) w6")
  have n5: "now w5 = now w2"
    using draw_int_facts[OF d3, of 0] draw_int_facts[OF d4, of 0] draw_int_facts[OF d5, of 0] by simp
  have "now w5 \<le> now w6" unfolding w6_def by (rule tm)
  then have n6: "now w \<le> now w6" using n5 n2 by linarith
  have uf: "fst (t_timings inp) \<le> t \<and> now w \<le> now w7"
    using uniform_ms_facts[OF u assms(2), of 0] n6 by simp
  have nm: "\<not> (case resp of None \<Rightarrow> False | Some r \<Rightarrow> r_moves r \<noteq> None)"
    using assms(1) unfolding auto_tick_def resp_def[symmetric] Let_def by (auto split: if_splits)
  have "auto_tick inp w = (sleep t w7, None)"
    unfolding auto_tick_def resp_def[symmetric] Let_def w1_def[symmetric] w2_def[symmetric]
    using nm d3 d4 d5 u by (simp add: w6_def)
  then show ?thesis using uf by (simp add: sleep_def)
qed

text \<open>The ticks of Milking and Edging.\<close>

lemma milking_tick_duration:
  assumes "fst (t_timings inp) \<le> snd (t_timings inp)"
  shows "now w + fst (t_timings inp) \<le> now (milking_tick inp w)"
proof -
  define resp where "resp = (case t_llm inp of LLM_raises \<Rightarrow> None | LLM_returns r \<Rightarrow> r)"
  define w1 where "w1 = (case resp of
                  None \<Rightarrow> w
                | Some r \<Rightarrow> (case r_chat r of
                               None \<Rightarrow> w
                             | Some c \<Rightarrow> if strip c \<noteq> [] then send_message (strip c) w else w))"
  have n1: "now w1 = now w"
    by (simp add: w1_def send_message_def split: option.splits)
  obtain sp w2 where d2: "draw_int 40 90 w1 = (sp, w2)" by (cases "draw_int 40 90 w1")
  obtain dp w3 where d3: "draw_int 50 85 w2 = (dp, w3)" by (cases "draw_int 50 85 w2")
  obtain rng w4 where d4: "draw_int 30 60 w3 = (rng, w4)" by (cases "draw_int 30 60 w3")
  define w5 where "w5 = try_move (py_of_int sp) (py_of_int dp) (py_of_int rng) w4"
  obtain t w6 where u: "uniform_ms (fst (t_timings inp)) (snd (t_timings inp)) w5 = (t, w6)"
    by (cases "uniform_ms (fst (t_timings inp)) (snd (t_timings inp)) w5")
  have n4: "now w4 = now w"
    using draw_int_facts[OF d2, of 0] draw_int_facts[OF d3, of 0] draw_int_facts[OF d4, of 0] n1
    by simp
  have "now w4 \<le> now w5" unfolding w5_def using try_move_facts by blast
  then have n5: "now w \<le> now w5" using n4 by simp
  have uf: "fst (t_timings inp) \<le> t \<and> now w \<le> now w6"
    using uniform_ms_facts[OF u assms, of 0] n5 by simp
  have "milking_tick inp w = sleep t w6"
    unfolding milking_tick_def resp_def[symmetric] Let_def w1_def[symmetric]
    using d2 d3 d4 u by (simp add: w5_def)
  then show ?thesis using uf by (simp add: sleep_def)
qed

lemma now_edging_react: "now (ew (fst (edging_react um s))) = now (ew s)"
  by (simp add: edging_react_def Let_def)

lemma edging_tick_duration:
  assumes t: "edging_tick inp s = (s', None)"
    and le: "fst (t_timings inp) \<le> snd (t_timings inp)"
  shows "now (ew s) + min 1000 (fst (t_timings inp)) \<le> now (ew s')"
proof -
  obtain s1 p where r: "edging_react (t_user_message inp) s = (s1, p)"
    by (cases "edging_react (t_user_message inp) s")
  have n1: "now (ew s1) = now (ew s)" using now_edging_react[of "t_user_message inp" s] r by simp
  define s2 where "s2 = s1\<lparr>prompts := prompts s1 @ [(p, edge_count s1)]\<rparr>"
  have n2: "now (ew s2) = now (ew s)" using n1 by (simp add: s2_def)
  from t obtain resp where l: "t_llm inp = LLM_returns resp"
    unfolding edging_tick_def r by (cases "t_llm inp") (auto simp: Let_def)
  define mv where "mv = (case resp of None \<Rightarrow> None
                   | Some r \<Rightarrow> (case r_move r of None \<Rightarrow> None
                                | Some md \<Rightarrow> if truthy md then Some (r, md) else None))"
  show ?thesis
  proof (cases mv)
    case None
    then have m0: "(case resp of None \<Rightarrow> None
                   | Some r \<Rightarrow> (case r_move r of None \<Rightarrow> None
                                | Some md \<Rightarrow> if truthy md then Some (r, md) else None)) = None"
      by (simp add: mv_def)
    have "edging_tick inp s = (s2\<lparr>ew := sleep 1000 (ew s2)\<rparr>, None)"
      unfolding edging_tick_def r s2_def by (simp add: l m0 Let_def)
    then have "s' = s2\<lparr>ew := sleep 1000 (ew s2)\<rparr>" using t by simp
    then show ?thesis using n2 by (simp add: sleep_def)
  next
    case (Some a)
    obtain rr md where a: "a = (rr, md)" by (cases a)
    define s3 where "s3 = (case r_chat rr of
                             None \<Rightarrow> s2
                           | Some c \<Rightarrow> if c \<noteq> [] then s2\<lparr>ew := send_message c (ew s2)\<rparr> else s2)"
    have n3: "now (ew s3) = now (ew s)" using n2 by (simp add: s3_def split: option.splits)
    let ?tm = "timed_move (get_or (d_sp md) PyNone) (get_or (d_dp md) PyNone)
                                    (get_or (d_rng md) PyNone) (ew s3)"
    have e: "edging_tick inp s =
       (case ?tm of
          Inl e \<Rightarrow> (s3, Some e)
        | Inr w0 \<Rightarrow>
           (let s4 = s3\<lparr>ew := w0\<rparr>;
                s5 = (if current_state s4 \<noteq> ''PULL_BACK''
                      then (case draw_int 0 3 (ew s4) of
                              (i, w) \<Rightarrow> s4\<lparr>ew := w, current_state := states ! nat i\<rparr>)
                      else s4\<lparr>current_state := ''RECOVERY''\<rparr>);
                (t, w) = uniform_ms (fst (t_timings inp)) (snd (t_timings inp)) (ew s5)
            in (s5\<lparr>ew := sleep t w\<rparr>, None)))"
    proof -
      have m: "(case resp of None \<Rightarrow> None
                   | Some r \<Rightarrow> (case r_move r of None \<Rightarrow> None
                                | Some md \<Rightarrow> if truthy md then Some (r, md) else None)) = Some (rr, md)"
        using Some a by (simp add: mv_def)
      show ?thesis
        unfolding edging_tick_def r s3_def s2_def by (simp add: l m Let_def)
    qed
    from t e obtain w0 where tm: "?tm = Inr w0" by (cases ?tm) auto
    define s4 where "s4 = s3\<lparr>ew := w0\<rparr>"
    define s5 where "s5 = (if current_state s4 \<noteq> ''PULL_BACK''
                      then (case draw_int 0 3 (ew s4) of
                              (i, w) \<Rightarrow> s4\<lparr>ew := w, current_state := states ! nat i\<rparr>)
                      else s4\<lparr>current_state := ''RECOVERY''\<rparr>)"
    have n4: "now (ew s) \<le> now (ew s4)" using timed_move_facts(2)[OF tm] n3 by (simp add: s4_def)
    have n5: "now (ew s5) = now (ew s4)"
    proof (cases "current_state s4 \<noteq> ''PULL_BACK''")
      case True
      obtain i w where d: "draw_int 0 3 (ew s4) = (i, w)" by (cases "draw_int 0 3 (ew s4)")
      show ?thesis using True d draw_int_facts[OF d, of 0] by (simp add: s5_def)
    next
      case False
      then show ?thesis by (simp add: s5_def)
    qed
    obtain tt w where u: "uniform_ms (fst (t_timings inp)) (snd (t_timings inp)) (ew s5) = (tt, w)"
      by (cases "uniform_ms (fst (t_timings inp)) (snd (t_timings inp)) (ew s5)")
    have uf: "fst (t_timings inp) \<le> tt" "now w = now (ew s5)"
      using uniform_ms_facts[OF u le, of 0] by simp_all
    have "edging_tick inp s = (s5\<lparr>ew := sleep tt w\<rparr>, None)"
      unfolding e tm using u by (simp add: Let_def s4_def[symmetric] s5_def[symmetric])
    then have "s' = s5\<lparr>ew := sleep tt w\<rparr>" using t by simp
    then show ?thesis using uf n5 n4 by (simp add: sleep_def)
  qed
qed

lemma move_tick_example: "edging_tick move_tick edging_after_edge = (edging_after_move, None)"
  by code_simp

text \<open>
  The replay of one move, the signal set 2 ms after the start: the loop is inside the sleep
  of its move (500 ms, one call), then sleeps the pause of the pass (1500 ms, one call) and
  returns at 2000 ms. It has sent the four requests of its move and no stop request.
\<close>

lemma replay_example_pass:
  "replay_pass (Some 2) [one_move] (world0\<lparr>draws := [500, 1500]\<rparr>)
     = world0\<lparr>device := moved_device, now := 500, draws := [1500]\<rparr>"
  by code_simp

lemma replay_example_sleep:
  "uniform_ms 1500 3500 (world0\<lparr>device := moved_device, now := 500, draws := [1500]\<rparr>)
     = (1500, world0\<lparr>device := moved_device, now := 500, draws := []\<rparr>)"
  by code_simp

theorem replay_cancellation_counterexample:
  "loop_moves_randomly [one_move] (Some 2) (world0\<lparr>draws := [500, 1500]\<rparr>)
     = Some (world0\<lparr>device := moved_device, draws := [], now := 2000\<rparr>)
   \<and> now (world0\<lparr>draws := [500, 1500]\<rparr>) = 0
   \<and> (2::nat) + 100 < now (world0\<lparr>device := moved_device, draws := [], now := 2000\<rparr>)
   \<and> filter (\<lambda>p. fst p = ''hamp/stop'')
        (puts (snd (device (world0\<lparr>device := moved_device, draws := [], now := 2000\<rparr>)))) = []"
proof -
  have n0: "now (world0\<lparr>draws := [500, 1500]\<rparr>) = 0" by (simp add: world0_def)
  have a: "replay_loop (Some 2) [one_move] (world0\<lparr>draws := [500, 1500]\<rparr>)
      = replay_loop (Some 2) [one_move] (world0\<lparr>device := moved_device, draws := [], now := 2000\<rparr>)"
    by (subst replay_loop.simps)
       (simp add: n0 replay_example_pass replay_example_sleep sleep_def del: replay_pass.simps)
  have b: "replay_loop (Some 2) [one_move] (world0\<lparr>device := moved_device, draws := [], now := 2000\<rparr>)
      = Some (world0\<lparr>device := moved_device, draws := [], now := 2000\<rparr>)"
    by (subst replay_loop.simps) simp
  have c: "loop_moves_randomly [one_move] (Some 2) (world0\<lparr>draws := [500, 1500]\<rparr>)
     = Some (world0\<lparr>device := moved_device, draws := [], now := 2000\<rparr>)"
    using a b by (simp add: loop_moves_randomly_def)
  show ?thesis using c by (simp add: world0_def moved_device_def)
qed

text \<open>
  Claim C1, amended. The signal is set at time \<open>s\<close>, not before the start, and no call of
  \<open>handy.move\<close> blocks for more than \<open>D\<close> milliseconds. The step of the custom patterns
  returns within one slice of 50 ms after the signal or at the end of its move call,
  whichever is later, hence by \<open>s + max 49 D\<close>; so do the loops of Waves, Pulse, Stairs and
  Tease and Hold. The Post-Orgasm loop returns by \<open>s + max 99 D\<close> (slices of 100 ms). The
  replay returns by \<open>s + 4699 + D\<close>, after the move call and the sleeps in progress (at most
  1200 ms and 3500 ms, one call each), and sends no stop request when none of its moves has
  a speed that \<open>int(float(speed))\<close> takes to 0. A tick of Auto mode that does not raise and
  a tick of Milking last at least the lower timing bound, whatever the signal, and a tick
  of Edging that does not raise lasts at least one second or the lower timing bound,
  whichever is smaller. The thread of a mode, once the mode function has returned or raised,
  calls \<open>stop()\<close> once (one stop request when a key is set) and \<open>on_stop\<close> once.
\<close>

theorem cancellation_polling:
  "now (step_move (Some s) sp dp rng dur w)
      \<le> max (now (try_move (py_of_int sp) (py_of_int dp) (py_of_int rng) w)) (s + 49)
   \<and> (now w \<le> s \<and> io_le D w \<longrightarrow>
        now (step_move (Some s) sp dp rng dur w) \<le> s + max 49 D
      \<and> (\<exists>w'. waves_mode_logic (Some s) w = Some w' \<and> now w' \<le> s + max 49 D)
      \<and> (\<exists>w'. pulse_mode_logic (Some s) w = Some w' \<and> now w' \<le> s + max 49 D)
      \<and> (\<exists>w'. stairs_mode_logic (Some s) w = Some w' \<and> now w' \<le> s + max 49 D)
      \<and> (\<exists>w'. teasehold_mode_logic (Some s) w = Some w' \<and> now w' \<le> s + max 49 D)
      \<and> (\<exists>w'. post_orgasm_mode_logic (Some s) w = Some w' \<and> now w' \<le> s + max 99 D)
      \<and> (\<exists>w'. loop_moves_randomly ms (Some s) w = Some w' \<and> now w' \<le> s + 4699 + D
           \<and> (no_stop_sent w \<and> (\<forall>m\<in>set ms. \<not> is_stop_speed (replay_speed m)) \<longrightarrow> no_stop_sent w')))
   \<and> (snd (auto_tick inp w) = None \<and> fst (t_timings inp) \<le> snd (t_timings inp) \<longrightarrow>
        now w + fst (t_timings inp) \<le> now (fst (auto_tick inp w)))
   \<and> (fst (t_timings inp) \<le> snd (t_timings inp) \<longrightarrow>
        now w + fst (t_timings inp) \<le> now (milking_tick inp w))
   \<and> (edging_tick einp es = (es', None) \<and> fst (t_timings einp) \<le> snd (t_timings einp) \<longrightarrow>
        now (ew es) + min 1000 (fst (t_timings einp)) \<le> now (ew es'))
   \<and> (mode_func (sleep 2000 (send_message msg w)) = Some (w2, exn) \<longrightarrow>
        (\<exists>w'. run mode_func msg w = Some w' \<and> device w' = stop (device w2)
           \<and> emitted (snd (device w2)) (snd (device w'))
               = (if handy_key (fst (device w2)) = [] then [] else [(''hamp/stop'', [])])
           \<and> on_stop_calls w' = on_stop_calls w2 + 1))"
proof -
  let ?w1 = "try_move (py_of_int sp) (py_of_int dp) (py_of_int rng) w"
  have a: "now (step_move (Some s) sp dp rng dur w) \<le> max (now ?w1) (s + 49)"
    by (rule step_move_relative)
  have b: "now w \<le> s \<and> io_le D w \<longrightarrow>
        now (step_move (Some s) sp dp rng dur w) \<le> s + max 49 D
      \<and> (\<exists>w'. waves_mode_logic (Some s) w = Some w' \<and> now w' \<le> s + max 49 D)
      \<and> (\<exists>w'. pulse_mode_logic (Some s) w = Some w' \<and> now w' \<le> s + max 49 D)
      \<and> (\<exists>w'. stairs_mode_logic (Some s) w = Some w' \<and> now w' \<le> s + max 49 D)
      \<and> (\<exists>w'. teasehold_mode_logic (Some s) w = Some w' \<and> now w' \<le> s + max 49 D)
      \<and> (\<exists>w'. post_orgasm_mode_logic (Some s) w = Some w' \<and> now w' \<le> s + max 99 D)
      \<and> (\<exists>w'. loop_moves_randomly ms (Some s) w = Some w' \<and> now w' \<le> s + 4699 + D
           \<and> (no_stop_sent w \<and> (\<forall>m\<in>set ms. \<not> is_stop_speed (replay_speed m)) \<longrightarrow> no_stop_sent w'))"
  proof
    assume h: "now w \<le> s \<and> io_le D w"
    then have h1: "now w \<le> s" and h2: "io_le D w" by simp_all
    have "now ?w1 \<le> now w + D"
      using try_move_facts[of w "py_of_int sp" "py_of_int dp" "py_of_int rng" D] h2 by simp
    then have b0: "now (step_move (Some s) sp dp rng dur w) \<le> s + max 49 D"
      using a h1 by (simp add: max_def split: if_splits)
    show "now (step_move (Some s) sp dp rng dur w) \<le> s + max 49 D
      \<and> (\<exists>w'. waves_mode_logic (Some s) w = Some w' \<and> now w' \<le> s + max 49 D)
      \<and> (\<exists>w'. pulse_mode_logic (Some s) w = Some w' \<and> now w' \<le> s + max 49 D)
      \<and> (\<exists>w'. stairs_mode_logic (Some s) w = Some w' \<and> now w' \<le> s + max 49 D)
      \<and> (\<exists>w'. teasehold_mode_logic (Some s) w = Some w' \<and> now w' \<le> s + max 49 D)
      \<and> (\<exists>w'. post_orgasm_mode_logic (Some s) w = Some w' \<and> now w' \<le> s + max 99 D)
      \<and> (\<exists>w'. loop_moves_randomly ms (Some s) w = Some w' \<and> now w' \<le> s + 4699 + D
           \<and> (no_stop_sent w \<and> (\<forall>m\<in>set ms. \<not> is_stop_speed (replay_speed m)) \<longrightarrow> no_stop_sent w'))"
      using b0 waves_mode_logic_returns[OF h1 h2] pulse_mode_logic_returns[OF h1 h2]
        stairs_mode_logic_returns[OF h1 h2] teasehold_mode_logic_returns[OF h1 h2]
        post_orgasm_mode_logic_returns[OF h1 h2] loop_moves_randomly_returns[OF h1 h2, of ms]
      by (intro conjI)
  qed
  have e: "snd (auto_tick inp w) = None \<and> fst (t_timings inp) \<le> snd (t_timings inp) \<longrightarrow>
        now w + fst (t_timings inp) \<le> now (fst (auto_tick inp w))"
    using auto_tick_duration by blast
  have e1: "fst (t_timings inp) \<le> snd (t_timings inp) \<longrightarrow>
        now w + fst (t_timings inp) \<le> now (milking_tick inp w)"
    using milking_tick_duration by blast
  have e2: "edging_tick einp es = (es', None) \<and> fst (t_timings einp) \<le> snd (t_timings einp) \<longrightarrow>
        now (ew es) + min 1000 (fst (t_timings einp)) \<le> now (ew es')"
    using edging_tick_duration by blast
  have f: "mode_func (sleep 2000 (send_message msg w)) = Some (w2, exn) \<longrightarrow>
        (\<exists>w'. run mode_func msg w = Some w' \<and> device w' = stop (device w2)
           \<and> emitted (snd (device w2)) (snd (device w'))
               = (if handy_key (fst (device w2)) = [] then [] else [(''hamp/stop'', [])])
           \<and> on_stop_calls w' = on_stop_calls w2 + 1)"
    using run_cleanup[of mode_func msg w w2 exn] by blast
  show ?thesis using a b e e1 e2 f by (intro conjI)
qed

lemma quiet_tick_returns: "snd (auto_tick quiet_tick slow_world) = None"
  by (simp add: auto_tick_def quiet_tick_def Let_def split: prod.splits)

lemma slow_step_example: "now (step_move (Some 50) 35 20 50 800 slow_world) = 120"
  by code_simp

theorem cancellation_polling_witness:
  "now slow_world \<le> 50 \<and> io_le 300 slow_world
   \<and> no_stop_sent slow_world \<and> \<not> is_stop_speed (replay_speed one_move)
   \<and> snd (auto_tick quiet_tick slow_world) = None
   \<and> fst (t_timings quiet_tick) \<le> snd (t_timings quiet_tick)
   \<and> auto_mode_logic (Some 0) [] (sleep 2000 (send_message ''Auto'' slow_world))
       = Some (sleep 2000 (send_message ''Auto'' slow_world), None)
   \<and> now (step_move (Some 50) 35 20 50 800 slow_world) = 120
   \<and> now (step_move (Some 50) 35 20 50 800 slow_world) \<le> 50 + max 49 300
   \<and> (\<exists>w'. waves_mode_logic (Some 50) slow_world = Some w' \<and> now w' \<le> 50 + max 49 300)
   \<and> (\<exists>w'. pulse_mode_logic (Some 50) slow_world = Some w' \<and> now w' \<le> 50 + max 49 300)
   \<and> (\<exists>w'. stairs_mode_logic (Some 50) slow_world = Some w' \<and> now w' \<le> 50 + max 49 300)
   \<and> (\<exists>w'. teasehold_mode_logic (Some 50) slow_world = Some w' \<and> now w' \<le> 50 + max 49 300)
   \<and> (\<exists>w'. post_orgasm_mode_logic (Some 50) slow_world = Some w' \<and> now w' \<le> 50 + max 99 300)
   \<and> (\<exists>w'. loop_moves_randomly [one_move] (Some 50) slow_world = Some w'
         \<and> now w' \<le> 50 + 4699 + 300 \<and> no_stop_sent w')
   \<and> now slow_world + 3000 \<le> now (fst (auto_tick quiet_tick slow_world))
   \<and> now slow_world + 3000 \<le> now (milking_tick quiet_tick slow_world)
   \<and> edging_tick move_tick edging_after_edge = (edging_after_move, None)
   \<and> fst (t_timings move_tick) \<le> snd (t_timings move_tick)
   \<and> now (ew edging_after_edge) + 1000 \<le> now (ew edging_after_move)
   \<and> (\<exists>w'. run (auto_mode_logic (Some 0) []) ''Auto'' slow_world = Some w'
         \<and> emitted (snd (device (sleep 2000 (send_message ''Auto'' slow_world)))) (snd (device w'))
            = [(''hamp/stop'', [])]
         \<and> on_stop_calls w' = 1)"
proof -
  have h1: "now slow_world \<le> 50" by (simp add: slow_world_def world0_def)
  have h1': "io_le 300 slow_world" by (simp add: slow_world_def io_le_def)
  have h2: "no_stop_sent slow_world"
    by (simp add: no_stop_sent_def slow_world_def world0_def init_def fresh_transport_def)
  have h3: "\<not> is_stop_speed (replay_speed one_move)"
    by (simp add: replay_speed_def one_move_def get_or_def py_of_int_def is_stop_speed_def trunc_def)
  have h4: "snd (auto_tick quiet_tick slow_world) = None" by (rule quiet_tick_returns)
  have h5: "fst (t_timings quiet_tick) \<le> snd (t_timings quiet_tick)" by (simp add: quiet_tick_def)
  have h5': "fst (t_timings quiet_tick) = 3000" by (simp add: quiet_tick_def)
  have h6: "auto_mode_logic (Some 0) [] (sleep 2000 (send_message ''Auto'' slow_world))
       = Some (sleep 2000 (send_message ''Auto'' slow_world), None)" by simp
  have k: "handy_key (fst (device (sleep 2000 (send_message ''Auto'' slow_world)))) \<noteq> []"
    by (simp add: sleep_def send_message_def slow_world_def world0_def init_def)
  have o: "on_stop_calls (sleep 2000 (send_message ''Auto'' slow_world)) = 0"
    by (simp add: sleep_def send_message_def slow_world_def world0_def)
  have h7: "fst (t_timings move_tick) \<le> snd (t_timings move_tick)" by (simp add: move_tick_def)
  have h7': "fst (t_timings move_tick) = 3000" by (simp add: move_tick_def)
  note t = cancellation_polling [where w = slow_world and s = 50 and D = 300 and sp = 35 and dp = 20
      and rng = 50 and dur = 800 and ms = "[one_move]" and inp = quiet_tick
      and einp = move_tick and es = edging_after_edge and es' = edging_after_move
      and mode_func = "auto_mode_logic (Some 0) []"
      and msg = "''Auto''" and ?w2.0 = "sleep 2000 (send_message ''Auto'' slow_world)" and exn = None]
  show ?thesis using h1 h1' h2 h3 h4 h5 h5' h6 h7 h7' k o slow_step_example move_tick_example t by auto
qed

lemma edging_react_signal:
  "user_signal_event s \<Longrightarrow>
   edging_react um s =
     (s\<lparr>user_signal_event := False, edge_count := edge_count s + 1,
        ew := update_mood ''Dominant'' (ew s), current_state := ''PULL_BACK''\<rparr>,
      EdgePrompt (edge_count s + 1))"
  by (simp add: edging_react_def)

lemma moods_keys: "map_of moods x \<noteq> None \<Longrightarrow> x \<noteq> ''PULL_BACK''"
  by (auto simp: moods_def)

lemma edging_react_no_signal:
  "\<not> user_signal_event s \<Longrightarrow>
   current_state (fst (edging_react um s))
     = (if map_of moods (current_state s) = None then ''BUILD_UP'' else current_state s)"
  by (simp add: edging_react_def Let_def)

lemma edging_react_pull_back:
  "current_state (fst (edging_react um s)) = ''PULL_BACK'' \<longleftrightarrow> user_signal_event s"
proof (cases "user_signal_event s")
  case True
  then show ?thesis by (simp add: edging_react_signal)
next
  case False
  then show ?thesis using moods_keys[of "current_state s"]
    by (auto simp: edging_react_no_signal)
qed

lemma edging_tick_signal_move:
  assumes sig: "user_signal_event s" and t: "edging_tick inp s = (s', None)" and m: "has_move inp"
  shows "current_state s' = ''RECOVERY'' \<and> edge_count s' = edge_count s + 1 \<and> \<not> user_signal_event s'"
proof -
  from m obtain r md where l: "t_llm inp = LLM_returns (Some r)" and rm: "r_move r = Some md"
    and tr: "truthy md"
    by (auto simp: has_move_def split: llm_outcome.splits option.splits)
  show ?thesis
    using t unfolding edging_tick_def edging_react_signal[OF sig] Let_def
    by (auto simp: l rm tr split: option.splits sum.splits prod.splits if_splits)
qed

lemma edging_tick_signal_no_move:
  assumes sig: "user_signal_event s" and m: "\<not> has_move inp" and l: "t_llm inp \<noteq> LLM_raises"
  shows "\<exists>s'. edging_tick inp s = (s', None) \<and> current_state s' = ''PULL_BACK''
           \<and> edge_count s' = edge_count s + 1 \<and> \<not> user_signal_event s'
           \<and> current_state (fst (edging_react um s')) = ''BUILD_UP''"
proof -
  from l obtain resp where r: "t_llm inp = LLM_returns resp" by (cases "t_llm inp") auto
  have n: "(case resp of None \<Rightarrow> None
            | Some r \<Rightarrow> (case r_move r of None \<Rightarrow> None
                         | Some md \<Rightarrow> if truthy md then Some (r, md) else None)) = None"
    using m r by (auto simp: has_move_def split: option.splits)
  define s2 where "s2 = s\<lparr>user_signal_event := False, edge_count := edge_count s + 1,
        ew := update_mood ''Dominant'' (ew s), current_state := ''PULL_BACK'',
        prompts := prompts s @ [(EdgePrompt (edge_count s + 1), edge_count s + 1)]\<rparr>"
  have e: "edging_tick inp s = (s2\<lparr>ew := sleep 1000 (ew s2)\<rparr>, None)"
    unfolding edging_tick_def edging_react_signal[OF sig] Let_def
    by (simp add: r n s2_def)
  have p: "map_of moods ''PULL_BACK'' = None" by (simp add: moods_def)
  have "current_state (fst (edging_react um (s2\<lparr>ew := sleep 1000 (ew s2)\<rparr>))) = ''BUILD_UP''"
    by (simp add: edging_react_no_signal s2_def p)
  then show ?thesis using e by (simp add: s2_def)
qed

text \<open>
  Claim C7, amended. When the user signal is set at the start of a tick, the first half of
  the tick clears it, adds one to the edge count and sets the state to \<open>PULL_BACK\<close>, whatever
  the state was; the state of a tick is \<open>PULL_BACK\<close> exactly when the signal was set. Such a
  tick that gets a move and returns ends in RECOVERY. Such a tick that gets no move keeps
  \<open>PULL_BACK\<close> through its one-second sleep, and the next tick, without a new signal, runs as
  \<open>BUILD_UP\<close>.
\<close>

theorem edging_signal_pull_back:
  "(user_signal_event s \<longrightarrow>
      edging_react um s =
        (s\<lparr>user_signal_event := False, edge_count := edge_count s + 1,
           ew := update_mood ''Dominant'' (ew s), current_state := ''PULL_BACK''\<rparr>,
         EdgePrompt (edge_count s + 1)))
   \<and> (current_state (fst (edging_react um s)) = ''PULL_BACK'' \<longleftrightarrow> user_signal_event s)
   \<and> (user_signal_event s \<and> edging_tick inp s = (s', None) \<and> has_move inp \<longrightarrow>
        current_state s' = ''RECOVERY'' \<and> edge_count s' = edge_count s + 1 \<and> \<not> user_signal_event s')
   \<and> (user_signal_event s \<and> \<not> has_move inp \<and> t_llm inp \<noteq> LLM_raises \<longrightarrow>
        (\<exists>s''. edging_tick inp s = (s'', None) \<and> current_state s'' = ''PULL_BACK''
           \<and> edge_count s'' = edge_count s + 1 \<and> \<not> user_signal_event s''
           \<and> current_state (fst (edging_react um s'')) = ''BUILD_UP''))"
  using edging_react_signal[of s um] edging_react_pull_back[of um s]
    edging_tick_signal_move[of s inp s'] edging_tick_signal_no_move[of s inp um]
  by blast

text \<open>
  A run of two ticks: the signal and a response without a move, then a response with a
  move. The prompts sent are the edge prompt and the build-up prompt, and the state after
  the second tick is the one drawn (TEASE): the \<open>PULL_BACK\<close> tick is not followed by RECOVERY.
\<close>

lemma edge_tick_example:
  "edging_tick edge_tick_no_move ((edging_start (world0\<lparr>draws := [1, 3000]\<rparr>))\<lparr>user_signal_event := True\<rparr>)
     = (edging_after_edge, None)"
  by code_simp

theorem edging_pull_back_counterexample:
  "edging_mode_logic (Some 3500) [edge_tick_no_move, move_tick] (world0\<lparr>draws := [1, 3000]\<rparr>)
     = Some (edging_after_move, None)
   \<and> t_signal edge_tick_no_move
   \<and> map fst (prompts edging_after_move) = [EdgePrompt 1, PhasePrompt ''BUILD_UP'' None]
   \<and> mood_log (ew edging_after_move) = [''Dominant'', ''Seductive'']
   \<and> current_state edging_after_move = ''TEASE''"
proof -
  have n0: "now (ew (edging_start (world0\<lparr>draws := [1, 3000]\<rparr>))) = 0"
    by (simp add: edging_start_def world0_def)
  have f0: "user_signal_event (edging_start (world0\<lparr>draws := [1, 3000]\<rparr>)) = False"
    by (simp add: edging_start_def)
  have s1: "t_signal edge_tick_no_move" "\<not> t_signal move_tick"
    by (simp_all add: edge_tick_no_move_def move_tick_def)
  have n1: "now (ew edging_after_edge) = 1000" "\<not> user_signal_event edging_after_edge"
    by (simp_all add: edging_after_edge_def world0_def)
  have n2: "now (ew edging_after_move) = 4000" by (simp add: edging_after_move_def world0_def)
  have u1: "edging_after_edge\<lparr>user_signal_event := False\<rparr> = edging_after_edge"
    by (simp add: edging_after_edge_def)
  have l: "edging_loop (Some 3500) [edge_tick_no_move, move_tick] (edging_start (world0\<lparr>draws := [1, 3000]\<rparr>))
     = Some (edging_after_move, None)"
    by (simp add: n0 f0 s1 n1 n2 u1 edge_tick_example move_tick_example)
  have m: "edging_mode_logic (Some 3500) [edge_tick_no_move, move_tick] (world0\<lparr>draws := [1, 3000]\<rparr>)
     = Some (edging_after_move, None)"
    unfolding edging_mode_logic_def l by (simp add: n2)
  show ?thesis using m s1 by (simp add: edging_after_move_def world0_def)
qed

theorem edging_signal_pull_back_witness:
  "user_signal_event ((edging_start (world0\<lparr>draws := [1, 3000]\<rparr>))\<lparr>user_signal_event := True, current_state := ''HOLD''\<rparr>)
   \<and> has_move move_tick \<and> \<not> has_move edge_tick_no_move \<and> t_llm edge_tick_no_move \<noteq> LLM_raises
   \<and> current_state (fst (edging_react None
        ((edging_start (world0\<lparr>draws := [1, 3000]\<rparr>))\<lparr>user_signal_event := True, current_state := ''HOLD''\<rparr>)))
       = ''PULL_BACK''
   \<and> edge_count (fst (edging_react None
        ((edging_start (world0\<lparr>draws := [1, 3000]\<rparr>))\<lparr>user_signal_event := True, current_state := ''HOLD''\<rparr>)))
       = 1
   \<and> snd (edging_tick move_tick
        ((edging_start (world0\<lparr>draws := [1, 3000]\<rparr>))\<lparr>user_signal_event := True, current_state := ''HOLD''\<rparr>))
       = None
   \<and> current_state (fst (edging_tick move_tick
        ((edging_start (world0\<lparr>draws := [1, 3000]\<rparr>))\<lparr>user_signal_event := True, current_state := ''HOLD''\<rparr>)))
       = ''RECOVERY''
   \<and> (\<exists>s''. edging_tick edge_tick_no_move
        ((edging_start (world0\<lparr>draws := [1, 3000]\<rparr>))\<lparr>user_signal_event := True, current_state := ''HOLD''\<rparr>)
          = (s'', None) \<and> current_state s'' = ''PULL_BACK''
         \<and> current_state (fst (edging_react None s'')) = ''BUILD_UP'')"
proof -
  let ?s = "(edging_start (world0\<lparr>draws := [1, 3000]\<rparr>))\<lparr>user_signal_event := True, current_state := ''HOLD''\<rparr>"
  have h1: "user_signal_event ?s" by simp
  have h2: "has_move move_tick"
    by (simp add: has_move_def move_tick_def truthy_def)
  have h3: "\<not> has_move edge_tick_no_move" by (simp add: has_move_def edge_tick_no_move_def)
  have h4: "t_llm edge_tick_no_move \<noteq> LLM_raises" by (simp add: edge_tick_no_move_def)
  have h5: "snd (edging_tick move_tick ?s) = None" by code_simp
  have h6: "edging_tick move_tick ?s = (fst (edging_tick move_tick ?s), None)"
    using h5 by (metis prod.collapse)
  have e: "edge_count ?s = 0" by (simp add: edging_start_def)
  note t1 = edging_signal_pull_back [where s = ?s and um = None and inp = move_tick
      and s' = "fst (edging_tick move_tick ?s)"]
  note t2 = edging_signal_pull_back [where s = ?s and um = None and inp = edge_tick_no_move
      and s' = "fst (edging_tick move_tick ?s)"]
  have a: "current_state (fst (edging_react None ?s)) = ''PULL_BACK''" using t1 h1 by blast
  have b: "edge_count (fst (edging_react None ?s)) = 1" using t1 h1 e by simp
  have c: "current_state (fst (edging_tick move_tick ?s)) = ''RECOVERY''" using t1 h1 h2 h6 by blast
  have d: "\<exists>s''. edging_tick edge_tick_no_move ?s = (s'', None) \<and> current_state s'' = ''PULL_BACK''
         \<and> current_state (fst (edging_react None s'')) = ''BUILD_UP''"
    using t2 h1 h3 h4 by blast
  show ?thesis using h1 h2 h3 h4 h5 a b c d by blast
qed

end
